theory Spec2Isabelle
  imports Complex_Main "HOL-Library.Sublist"
begin

section \<open>JavaScript strings\<close>

text \<open>
  A string is a list of code units. The model keeps the code units below 256 (HOL's
  \<open>char\<close>), read as Latin-1 code points; \<open>String.prototype.trim\<close> strips the white
  space of that range (tab, line feed, vertical tab, form feed, carriage return, space,
  no-break space) and \<open>toLowerCase\<close> maps \<open>A\<close>--\<open>Z\<close> and the upper-case letters
  \<open>U+00C0\<close>--\<open>U+00DE\<close> (without the multiplication sign \<open>U+00D7\<close>) to the letter 32
  code points above, which is the same code unit with bit 5 set.
\<close>

definition is_ws :: "char \<Rightarrow> bool" where
  "is_ws c = (let n = (of_char c :: nat) in (9 \<le> n \<and> n \<le> 13) \<or> n = 32 \<or> n = 160)"

definition lower_char :: "char \<Rightarrow> char" where
  "lower_char c =
     (let n = (of_char c :: nat)
      in if (65 \<le> n \<and> n \<le> 90) \<or> (192 \<le> n \<and> n \<le> 222 \<and> n \<noteq> 215)
         then (case c of Char b0 b1 b2 b3 b4 b5 b6 b7 \<Rightarrow> Char b0 b1 b2 b3 b4 True b6 b7)
         else c)"

definition toLowerCase :: "string \<Rightarrow> string" where
  "toLowerCase s = map lower_char s"

text \<open>\<open>s.substring(a, b)\<close> for non-negative integers: both ends are clamped to the
  length and swapped when \<open>a > b\<close>.\<close>

definition substring :: "string \<Rightarrow> nat \<Rightarrow> nat \<Rightarrow> string" where
  "substring s a b =
     (let lo = min (min a b) (length s); hi = min (max a b) (length s)
      in take (hi - lo) (drop lo s))"

definition trim :: "string \<Rightarrow> string" where
  "trim s = rev (dropWhile is_ws (rev (dropWhile is_ws s)))"

text \<open>\<open>s.split(d)\<close> for a one-character separator: the empty string gives one empty
  piece, and two adjacent separators give an empty piece between them.\<close>

fun split :: "char \<Rightarrow> string \<Rightarrow> string list" where
  "split d [] = [[]]"
| "split d (c # cs) =
     (if c = d then [] # split d cs
      else (c # hd (split d cs)) # tl (split d cs))"

fun join :: "string \<Rightarrow> string list \<Rightarrow> string" where
  "join d [] = []"
| "join d [w] = w"
| "join d (w # ws) = w @ d @ join d ws"


section \<open>IngestionService\<close>

text \<open>The article shape built by the parsers; \<open>publishedAt\<close> is the instant in
  milliseconds. \<open>removeDuplicates\<close> reads the title only, which is a string (on a
  missing title \<open>article.title.toLowerCase()\<close> would throw).\<close>

record article =
  title :: string
  content :: string
  url :: string
  source :: string
  publishedAt :: int
  author :: "string option"
  description :: "string option"
  image :: "string option"

text \<open>\<open>article.title.toLowerCase().substring(0, 50)\<close>\<close>

definition article_key :: "article \<Rightarrow> string" where
  "article_key a = substring (toLowerCase (title a)) 0 50"

text \<open>The callback of \<open>articles.filter\<close>, run over the list from the left with the
  \<open>seen\<close> set it updates passed along.\<close>

fun dedup_filter :: "string set \<Rightarrow> article list \<Rightarrow> article list" where
  "dedup_filter seen [] = []"
| "dedup_filter seen (a # as) =
     (let key = article_key a
      in if key \<in> seen then dedup_filter seen as
         else a # dedup_filter (insert key seen) as)"

definition removeDuplicates :: "article list \<Rightarrow> article list" where
  "removeDuplicates articles = dedup_filter {} articles"

text \<open>An article with a given title and URL, for the examples.\<close>

definition titled :: "string \<Rightarrow> string \<Rightarrow> article" where
  "titled t u =
     \<lparr>title = t, content = ''text'', url = u, source = ''RSS Feed'', publishedAt = 0,
      author = None, description = None, image = None\<rparr>"

text \<open>
  \<open>chunkContent\<close>: the \<open>for\<close> loop over the start index \<open>i\<close>, with the \<open>chunks\<close>
  array as accumulator. The stride is \<open>maxChunkSize - overlap\<close>; when it is not positive
  the index never passes \<open>words.length\<close> and the loop does not return, which is the value
  \<open>None\<close> here (the stride of the model is then 0).
\<close>

partial_function (option) chunk_loop ::
  "string list \<Rightarrow> nat \<Rightarrow> nat \<Rightarrow> nat \<Rightarrow> string list \<Rightarrow> string list option" where
  "chunk_loop words maxChunkSize overlap i chunks =
     (if i < length words then
        (let chunk = join '' '' (take maxChunkSize (drop i words))
         in chunk_loop words maxChunkSize overlap (i + (maxChunkSize - overlap))
              (if trim chunk \<noteq> [] then chunks @ [trim chunk] else chunks))
      else Some chunks)"

declare chunk_loop.simps [code]

definition chunkContent :: "string \<Rightarrow> nat \<Rightarrow> nat \<Rightarrow> string list option" where
  "chunkContent contents maxChunkSize overlap =
     map_option (\<lambda>chunks. if chunks \<noteq> [] then chunks else [contents])
       (chunk_loop (split CHR '' '' contents) maxChunkSize overlap 0 [])"


section \<open>EmbeddingsService\<close>

text \<open>
  The fields the constructor sets. \<open>apiKey\<close> is \<open>process.env.JINA_API_KEY\<close>, \<open>None\<close>
  when the variable is unset; \<open>!this.apiKey\<close> holds for an unset and for an empty key.
\<close>

record embeddings_service =
  apiKey :: "string option"
  maxRetries :: nat
  retryDelay :: nat
  batchSize :: nat

definition new_EmbeddingsService :: "string option \<Rightarrow> embeddings_service" where
  "new_EmbeddingsService env_key =
     \<lparr>apiKey = env_key, maxRetries = 3, retryDelay = 1000, batchSize = 20\<rparr>"

definition has_key :: "embeddings_service \<Rightarrow> bool" where
  "has_key svc = (case apiKey svc of None \<Rightarrow> False | Some k \<Rightarrow> k \<noteq> [])"

text \<open>
  An element of the provider's \<open>data\<close> array, and the record \<open>generateBatchEmbeddings\<close>
  returns for it. \<open>embedding\<close> is \<open>None\<close> when the element carries no vector; \<open>failed\<close>
  is \<open>False\<close> for the records built from a response, which have no such property.
\<close>

record item =
  embedding :: "real list option"
  index :: nat

record embedding_record = item +
  failed :: bool

text \<open>
  What one \<open>axios.post\<close> gives: the promise is rejected (network error, timeout, error
  status), or it resolves to a response whose \<open>data.data\<close> is missing (\<open>None\<close>) or is
  an array of items. The provider is outside the repository: it is a parameter, a function
  of the number of the request (counted from the start of the run) and of the posted
  input, so successive requests may answer differently.
\<close>

datatype api_result = Rejected | Response "item list option"

type_synonym provider = "nat \<Rightarrow> string list \<Rightarrow> api_result"

text \<open>
  The effects of a run, as a log with the oldest event first: a request with the posted
  input, or a wait (\<open>this.delay(ms)\<close>). \<open>calls\<close> counts the requests of a log, which
  is the number of the next request.
\<close>

datatype event = Request "string list" | Wait nat

fun is_request :: "event \<Rightarrow> bool" where
  "is_request (Request posted) = True"
| "is_request (Wait ms) = False"

definition calls :: "event list \<Rightarrow> nat" where
  "calls events = length (filter is_request events)"

text \<open>
  The \<open>try\<close> block of \<open>generateBatchEmbeddings\<close>; \<open>None\<close> stands for an exception that
  reaches the \<open>catch\<close> clause: the rejected request, the "Invalid response format"
  error, and the \<open>TypeError\<close> of \<open>embeddings[0].embedding.length\<close> when the first
  element has no vector. A dimension other than 768 is logged only.
\<close>

definition try_block :: "api_result \<Rightarrow> embedding_record list option" where
  "try_block r =
     (case r of
        Rejected \<Rightarrow> None
      | Response None \<Rightarrow> None
      | Response (Some items) \<Rightarrow>
          (let embeddings =
                 map (\<lambda>item. \<lparr>embedding = embedding item, index = index item, failed = False\<rparr>)
                   items
           in if embeddings \<noteq> [] \<and> embedding (hd embeddings) = None then None
              else Some embeddings))"

text \<open>\<open>texts.map((_, index) => ({embedding: new Array(768).fill(0), index, failed: true}))\<close>\<close>

definition fallback_records :: "string list \<Rightarrow> embedding_record list" where
  "fallback_records texts =
     map (\<lambda>index. \<lparr>embedding = Some (replicate 768 0), index = index, failed = True\<rparr>)
       [0..<length texts]"

function generateBatchEmbeddings ::
  "embeddings_service \<Rightarrow> provider \<Rightarrow> string list \<Rightarrow> nat \<Rightarrow> event list
     \<Rightarrow> embedding_record list \<times> event list"
  where
  "generateBatchEmbeddings svc provider texts retryCount events =
     (case try_block (provider (calls events) texts) of
        Some embeddings \<Rightarrow> (embeddings, events @ [Request texts])
      | None \<Rightarrow>
          if retryCount < maxRetries svc
          then generateBatchEmbeddings svc provider texts (retryCount + 1)
                 (events @ [Request texts, Wait (retryDelay svc * 2 ^ retryCount)])
          else (fallback_records texts, events @ [Request texts]))"
  by pat_completeness auto
termination
  by (relation "measure (\<lambda>(svc, provider, texts, retryCount, events). maxRetries svc - retryCount)")
     auto

declare generateBatchEmbeddings.simps [simp del]

text \<open>
  \<open>generateEmbeddings\<close>: its argument is an array or, when \<open>Array.isArray\<close> fails, a
  single value that is wrapped (\<open>as_array\<close>). The loop over the batches advances \<open>i\<close> by
  \<open>this.batchSize\<close>, so with a batch size of 0 it would not return (\<open>None\<close>). Every
  exception of \<open>generateBatchEmbeddings\<close> is caught by its own handler, so the
  \<open>catch\<close> clause around the call has no branch here.
\<close>

datatype texts_arg = TextList "string list" | SingleText string

definition as_array :: "texts_arg \<Rightarrow> string list" where
  "as_array texts = (case texts of TextList ts \<Rightarrow> ts | SingleText t \<Rightarrow> [t])"

partial_function (option) batches_loop ::
  "embeddings_service \<Rightarrow> provider \<Rightarrow> string list \<Rightarrow> nat \<Rightarrow> embedding_record list
     \<Rightarrow> event list \<Rightarrow> (embedding_record list \<times> event list) option" where
  "batches_loop svc provider texts i allEmbeddings events =
     (if i < length texts then
        (let batch = take (batchSize svc) (drop i texts);
             (batchEmbeddings, events1) = generateBatchEmbeddings svc provider batch 0 events;
             events2 = (if i + batchSize svc < length texts then events1 @ [Wait 500] else events1)
         in batches_loop svc provider texts (i + batchSize svc)
              (allEmbeddings @ batchEmbeddings) events2)
      else Some (allEmbeddings, events))"

declare batches_loop.simps [code]

definition generateEmbeddings ::
  "embeddings_service \<Rightarrow> provider \<Rightarrow> texts_arg \<Rightarrow> event list
     \<Rightarrow> (embedding_record list \<times> event list) option"
  where
  "generateEmbeddings svc provider texts events =
     (if \<not> has_key svc then Some ([], events)
      else batches_loop svc provider (as_array texts) 0 [] events)"

text \<open>A provider that rejects every even-numbered request and answers every odd-numbered
  one with a vector per input, for the examples below.\<close>

definition mixed_provider :: provider where
  "mixed_provider n batch =
     (if even n then Rejected
      else Response (Some (map (\<lambda>j. \<lparr>embedding = Some [1], index = j\<rparr>) [0..<length batch])))"

text \<open>
  \<open>cosineSimilarity\<close>. JavaScript numbers are IEEE doubles, and their arithmetic is the
  language's, not the repository's: the model takes it as a parameter, the number \<open>0\<close>,
  the operations \<open>+\<close>, \<open>*\<close>, \<open>/\<close> and \<open>Math.sqrt\<close> and the comparison \<open>===\<close>. What
  is proved of \<open>cosineSimilarity\<close> holds for every such arithmetic, the doubles among
  them; nothing is assumed of a division by zero.
\<close>

record 'n arith =
  num_zero :: 'n
  num_add :: "'n \<Rightarrow> 'n \<Rightarrow> 'n"
  num_mul :: "'n \<Rightarrow> 'n \<Rightarrow> 'n"
  num_div :: "'n \<Rightarrow> 'n \<Rightarrow> 'n"
  num_sqrt :: "'n \<Rightarrow> 'n"
  num_eq :: "'n \<Rightarrow> 'n \<Rightarrow> bool"

text \<open>\<open>x === 0\<close>\<close>

definition is_zero :: "'n arith \<Rightarrow> 'n \<Rightarrow> bool" where
  "is_zero ar x = num_eq ar x (num_zero ar)"

text \<open>The thrown \<open>Error\<close> is the value \<open>Inl\<close>.\<close>

datatype js_error = Error string

definition cosineSimilarity :: "'n arith \<Rightarrow> 'n list \<Rightarrow> 'n list \<Rightarrow> js_error + 'n" where
  "cosineSimilarity ar vecA vecB =
     (if length vecA \<noteq> length vecB then Inl (Error ''Vectors must have the same length'')
      else
        (let (dotProduct, normA, normB) =
               fold (\<lambda>i (dotProduct, normA, normB).
                       (num_add ar dotProduct (num_mul ar (vecA ! i) (vecB ! i)),
                        num_add ar normA (num_mul ar (vecA ! i) (vecA ! i)),
                        num_add ar normB (num_mul ar (vecB ! i) (vecB ! i))))
                 [0..<length vecA] (num_zero ar, num_zero ar, num_zero ar);
             normA = num_sqrt ar normA;
             normB = num_sqrt ar normB
         in if is_zero ar normA \<or> is_zero ar normB then Inr (num_zero ar)
            else Inr (num_div ar dotProduct (num_mul ar normA normB))))"

text \<open>
  An arithmetic for the examples: the special values of the doubles and the finite values
  of their range. A result of magnitude \<open>2 ^ 1024 - 2 ^ 970\<close> or more is infinite and one
  of magnitude \<open>2 ^ -1075\<close> or less is zero, as rounding to the nearest double gives;
  between the two the exact value is kept, so the rounding of the mantissa is left out. The
  two zeros are one value, \<open>Num 0\<close> (\<open>===\<close> does not tell them apart), read as \<open>+0\<close>
  where a sign is needed.
\<close>

datatype number = Num real | PosInfinity | NegInfinity | NaN

definition in_range :: "real \<Rightarrow> number" where
  "in_range x =
     (if 2 ^ 1024 - 2 ^ 970 \<le> x then PosInfinity
      else if x \<le> - (2 ^ 1024 - 2 ^ 970) then NegInfinity
      else if \<bar>x\<bar> \<le> 1 / 2 ^ 1075 then Num 0
      else Num x)"

fun number_add :: "number \<Rightarrow> number \<Rightarrow> number" where
  "number_add NaN y = NaN"
| "number_add x NaN = NaN"
| "number_add (Num a) (Num b) = in_range (a + b)"
| "number_add (Num a) y = y"
| "number_add x (Num b) = x"
| "number_add x y = (if x = y then x else NaN)"

fun number_mul :: "number \<Rightarrow> number \<Rightarrow> number" where
  "number_mul NaN y = NaN"
| "number_mul x NaN = NaN"
| "number_mul (Num a) (Num b) = in_range (a * b)"
| "number_mul (Num a) y =
     (if a = 0 then NaN else if (0 < a) = (y = PosInfinity) then PosInfinity else NegInfinity)"
| "number_mul x (Num b) =
     (if b = 0 then NaN else if (0 < b) = (x = PosInfinity) then PosInfinity else NegInfinity)"
| "number_mul x y = (if x = y then PosInfinity else NegInfinity)"

fun number_div :: "number \<Rightarrow> number \<Rightarrow> number" where
  "number_div NaN y = NaN"
| "number_div x NaN = NaN"
| "number_div (Num a) (Num b) =
     (if b = 0 then (if a = 0 then NaN else if 0 < a then PosInfinity else NegInfinity)
      else in_range (a / b))"
| "number_div (Num a) y = Num 0"
| "number_div x (Num b) =
     (if (0 \<le> b) = (x = PosInfinity) then PosInfinity else NegInfinity)"
| "number_div x y = NaN"

fun number_sqrt :: "number \<Rightarrow> number" where
  "number_sqrt (Num a) = (if a < 0 then NaN else in_range (sqrt a))"
| "number_sqrt PosInfinity = PosInfinity"
| "number_sqrt x = NaN"

fun number_eq :: "number \<Rightarrow> number \<Rightarrow> bool" where
  "number_eq NaN y = False"
| "number_eq x NaN = False"
| "number_eq x y = (x = y)"

definition range_arith :: "number arith" where
  "range_arith =
     \<lparr>num_zero = Num 0, num_add = number_add, num_mul = number_mul, num_div = number_div,
      num_sqrt = number_sqrt, num_eq = number_eq\<rparr>"


section \<open>SessionManager\<close>

text \<open>
  Instants are milliseconds since the epoch (\<open>Date.now()\<close>; an ISO string and the
  instant it denotes are not told apart). Every method takes the instant \<open>now\<close> at
  which it runs: one call is modelled at one instant, so a key cannot expire between two
  steps of the same call. A message is any value: the manager stores it and reads nothing
  of it but \<open>id\<close> and \<open>role\<close> for the log, which is not modelled.
\<close>

record session =
  session_id :: string
  created :: int
  lastActivity :: int
  messageCount :: nat

text \<open>
  \<open>fallbackStorage\<close> is one \<open>Map\<close> with the keys \<open>session:<id>\<close> and
  \<open>messages:<id>\<close>. The two families differ in their first character, so no key of one
  is a key of the other, and the map is kept as two maps indexed by the session id.
\<close>

record 'm storage =
  session_of :: "string \<rightharpoonup> session"
  messages_of :: "string \<rightharpoonup> 'm list"

text \<open>
  The Redis client, as far as the manager uses it: the same two key families, each value
  stored with the instant at which it expires. \<open>setex\<close> stores a value for a number of
  seconds, \<open>get\<close> returns it until that instant is reached. Values go through
  \<open>JSON.stringify\<close> and \<open>JSON.parse\<close>, taken as the identity; the client is taken
  to answer every call (a rejected call makes the method log and rethrow).
\<close>

record 'm redis_db =
  session_keys :: "string \<rightharpoonup> int \<times> session"
  messages_keys :: "string \<rightharpoonup> int \<times> 'm list"

definition redis_get :: "(string \<rightharpoonup> int \<times> 'v) \<Rightarrow> int \<Rightarrow> string \<Rightarrow> 'v option" where
  "redis_get keys now k =
     (case keys k of
        None \<Rightarrow> None
      | Some (expires, v) \<Rightarrow> if now < expires then Some v else None)"

definition redis_setex ::
  "(string \<rightharpoonup> int \<times> 'v) \<Rightarrow> int \<Rightarrow> string \<Rightarrow> nat \<Rightarrow> 'v \<Rightarrow> (string \<rightharpoonup> int \<times> 'v)" where
  "redis_setex keys now k seconds v = keys(k \<mapsto> (now + int seconds * 1000, v))"

text \<open>
  The manager's fields. \<open>redis\<close> is \<open>None\<close> while the in-memory fallback is in use.
  \<open>sessionTTL\<close> is \<open>parseInt(process.env.CHAT_HISTORY_TTL) || 86400\<close>, for an unset
  or non-numeric variable (\<open>None\<close>) or a number that is not negative.
\<close>

record 'm session_manager =
  redis :: "'m redis_db option"
  sessionTTL :: nat
  fallbackStorage :: "'m storage"

definition new_SessionManager :: "nat option \<Rightarrow> 'm session_manager" where
  "new_SessionManager env_ttl =
     \<lparr>redis = None,
      sessionTTL = (case env_ttl of None \<Rightarrow> 86400 | Some n \<Rightarrow> if n = 0 then 86400 else n),
      fallbackStorage = \<lparr>session_of = Map.empty, messages_of = Map.empty\<rparr>\<rparr>"

definition initialize :: "'m session_manager \<Rightarrow> 'm redis_db option \<Rightarrow> 'm session_manager" where
  "initialize m client = m\<lparr>redis := client\<rparr>"

definition createSession ::
  "'m session_manager \<Rightarrow> string \<Rightarrow> int \<Rightarrow> session \<times> 'm session_manager" where
  "createSession m sessionId now =
     (let sessionData =
            \<lparr>session_id = sessionId, created = now, lastActivity = now, messageCount = 0\<rparr>
      in case redis m of
           Some db \<Rightarrow>
             (sessionData,
              m\<lparr>redis := Some
                   \<lparr>session_keys =
                      redis_setex (session_keys db) now sessionId (sessionTTL m) sessionData,
                    messages_keys =
                      redis_setex (messages_keys db) now sessionId (sessionTTL m) []\<rparr>\<rparr>)
         | None \<Rightarrow>
             (sessionData,
              m\<lparr>fallbackStorage :=
                   \<lparr>session_of = (session_of (fallbackStorage m))(sessionId \<mapsto> sessionData),
                    messages_of = (messages_of (fallbackStorage m))(sessionId \<mapsto> [])\<rparr>\<rparr>))"

text \<open>The read at the start of \<open>getSessionInfo\<close>, and the method: a missing session
  is created.\<close>

definition lookup_session :: "'m session_manager \<Rightarrow> string \<Rightarrow> int \<Rightarrow> session option" where
  "lookup_session m sessionId now =
     (case redis m of
        Some db \<Rightarrow> redis_get (session_keys db) now sessionId
      | None \<Rightarrow> session_of (fallbackStorage m) sessionId)"

definition getSessionInfo ::
  "'m session_manager \<Rightarrow> string \<Rightarrow> int \<Rightarrow> session \<times> 'm session_manager" where
  "getSessionInfo m sessionId now =
     (case lookup_session m sessionId now of
        None \<Rightarrow> createSession m sessionId now
      | Some sessionData \<Rightarrow> (sessionData, m))"

text \<open>\<open>messages.push(message)\<close>, then
  \<open>messages.splice(0, messages.length - 100)\<close> when the length exceeds 100.\<close>

definition push_capped :: "'m list \<Rightarrow> 'm \<Rightarrow> 'm list" where
  "push_capped messages message =
     (let pushed = messages @ [message]
      in if length pushed > 100 then drop (length pushed - 100) pushed else pushed)"

text \<open>
  \<open>addMessage\<close>, with its two branches. In the Redis branch the second
  \<open>getSessionInfo\<close> leaves the client in place, so the closing \<open>None\<close> case is
  never taken.
\<close>

definition addMessage :: "'m session_manager \<Rightarrow> string \<Rightarrow> 'm \<Rightarrow> int \<Rightarrow> 'm session_manager" where
  "addMessage m0 sessionId message now =
     (let m = snd (getSessionInfo m0 sessionId now)
      in case redis m of
           Some db \<Rightarrow>
             (let messages = (case redis_get (messages_keys db) now sessionId of
                                None \<Rightarrow> [] | Some ms \<Rightarrow> ms);
                  messages = push_capped messages message;
                  m1 = m\<lparr>redis := Some (db\<lparr>messages_keys :=
                          redis_setex (messages_keys db) now sessionId (sessionTTL m) messages\<rparr>)\<rparr>;
                  (sessionData, m2) = getSessionInfo m1 sessionId now;
                  sessionData = sessionData\<lparr>lastActivity := now, messageCount := length messages\<rparr>
              in case redis m2 of
                   Some db2 \<Rightarrow>
                     m2\<lparr>redis := Some (db2\<lparr>session_keys :=
                          redis_setex (session_keys db2) now sessionId (sessionTTL m2) sessionData\<rparr>)\<rparr>
                 | None \<Rightarrow> m2)
         | None \<Rightarrow>
             (let messages = (case messages_of (fallbackStorage m) sessionId of
                                None \<Rightarrow> [] | Some ms \<Rightarrow> ms);
                  messages = push_capped messages message;
                  m1 = m\<lparr>fallbackStorage := (fallbackStorage m)\<lparr>messages_of :=
                          (messages_of (fallbackStorage m))(sessionId \<mapsto> messages)\<rparr>\<rparr>
              in case session_of (fallbackStorage m1) sessionId of
                   Some sessionData \<Rightarrow>
                     m1\<lparr>fallbackStorage := (fallbackStorage m1)\<lparr>session_of :=
                          (session_of (fallbackStorage m1))(sessionId \<mapsto>
                             sessionData\<lparr>lastActivity := now, messageCount := length messages\<rparr>)\<rparr>\<rparr>
                 | None \<Rightarrow> m1))"

text \<open>The read at the start of \<open>getMessages\<close>: the stored list, or the empty list
  when there is none.\<close>

definition load_messages :: "'m session_manager \<Rightarrow> string \<Rightarrow> int \<Rightarrow> 'm list" where
  "load_messages m sessionId now =
     (case redis m of
        Some db \<Rightarrow> (case redis_get (messages_keys db) now sessionId of None \<Rightarrow> [] | Some ms \<Rightarrow> ms)
      | None \<Rightarrow> (case messages_of (fallbackStorage m) sessionId of None \<Rightarrow> [] | Some ms \<Rightarrow> ms))"

text \<open>\<open>Array.prototype.slice(start, end)\<close> for integers: a negative index counts
  from the end, and both are clamped to the length.\<close>

definition slice :: "'a list \<Rightarrow> int \<Rightarrow> int \<Rightarrow> 'a list" where
  "slice xs start fin =
     (let n = int (length xs);
          k = (if start < 0 then max (n + start) 0 else min start n);
          e = (if fin < 0 then max (n + fin) 0 else min fin n)
      in take (nat (e - k)) (drop (nat k) xs))"

text \<open>The \<open>options\<close> argument; a missing property takes its default, 50 and 0.\<close>

record options =
  limit :: "int option"
  offset :: "int option"

definition getMessages :: "'m session_manager \<Rightarrow> string \<Rightarrow> options \<Rightarrow> int \<Rightarrow> 'm list" where
  "getMessages m sessionId opts now =
     (let limit' = (case limit opts of None \<Rightarrow> 50 | Some l \<Rightarrow> l);
          offset' = (case offset opts of None \<Rightarrow> 0 | Some k \<Rightarrow> k);
          messages = load_messages m sessionId now;
          startIndex = max 0 (int (length messages) - limit' - offset');
          endIndex = max 0 (int (length messages) - offset')
      in slice messages startIndex endIndex)"

definition deleteSession :: "'m session_manager \<Rightarrow> string \<Rightarrow> 'm session_manager" where
  "deleteSession m sessionId =
     (case redis m of
        Some db \<Rightarrow>
          m\<lparr>redis := Some \<lparr>session_keys = (session_keys db)(sessionId := None),
                            messages_keys = (messages_keys db)(sessionId := None)\<rparr>\<rparr>
      | None \<Rightarrow>
          m\<lparr>fallbackStorage :=
               \<lparr>session_of = (session_of (fallbackStorage m))(sessionId := None),
                messages_of = (messages_of (fallbackStorage m))(sessionId := None)\<rparr>\<rparr>)"

text \<open>
  The callback of the cleanup timer, which \<open>startCleanupTimer\<close> installs only when
  there is no Redis client, run at the instant \<open>now\<close>: every session whose age, counted
  from \<open>created\<close>, exceeds \<open>sessionTTL * 1000\<close> is deleted together with its
  messages.
\<close>

definition expired :: "'m session_manager \<Rightarrow> int \<Rightarrow> string \<Rightarrow> bool" where
  "expired m now sessionId =
     (case session_of (fallbackStorage m) sessionId of
        None \<Rightarrow> False
      | Some sd \<Rightarrow> now - created sd > int (sessionTTL m) * 1000)"

definition sweep :: "'m session_manager \<Rightarrow> int \<Rightarrow> 'm session_manager" where
  "sweep m now =
     m\<lparr>fallbackStorage :=
         \<lparr>session_of = (\<lambda>sessionId. if expired m now sessionId then None
                                    else session_of (fallbackStorage m) sessionId),
          messages_of = (\<lambda>sessionId. if expired m now sessionId then None
                                    else messages_of (fallbackStorage m) sessionId)\<rparr>\<rparr>"


section \<open>Article deduplication\<close>

lemma dedup_filter_subseq: "subseq (dedup_filter seen as) as"
  by (induction as arbitrary: seen) (auto simp: Let_def)

lemma dedup_filter_keys_fresh:
  "a \<in> set (dedup_filter seen as) \<Longrightarrow> article_key a \<notin> seen"
  by (induction as arbitrary: seen) (auto simp: Let_def split: if_splits)

lemma dedup_filter_distinct: "distinct (map article_key (dedup_filter seen as))"
  by (induction as arbitrary: seen) (auto simp: Let_def dest: dedup_filter_keys_fresh)

lemma dedup_filter_find:
  "find (\<lambda>a. article_key a = k) (dedup_filter seen as) =
     (if k \<in> seen then None else find (\<lambda>a. article_key a = k) as)"
  by (induction as arbitrary: seen)
     (auto simp: Let_def find_None_iff dest: dedup_filter_keys_fresh)

text \<open>
  Claim C4. For every list of articles, \<open>removeDuplicates\<close> returns a subsequence of its
  input (so first-seen order is preserved); no two returned articles share the key
  "lower-cased title cut to its first 50 characters"; for every key, the first returned
  article with that key is the first input article with that key (and there is none in
  the output exactly when there is none in the input); and the empty list gives the
  empty list.
\<close>

theorem removeDuplicates_first_seen:
  "subseq (removeDuplicates as) as
   \<and> distinct (map article_key (removeDuplicates as))
   \<and> find (\<lambda>a. article_key a = k) (removeDuplicates as) = find (\<lambda>a. article_key a = k) as
   \<and> removeDuplicates [] = []"
  by (simp add: removeDuplicates_def dedup_filter_subseq dedup_filter_distinct
      dedup_filter_find)


text \<open>Three articles whose titles differ in case only: the first is kept.\<close>

lemma removeDuplicates_same_title:
  "removeDuplicates [titled ''Breaking News'' ''u1'', titled ''BREAKING news'' ''u2'',
       titled ''breaking NEWS'' ''u3''] = [titled ''Breaking News'' ''u1'']"
  by (simp add: removeDuplicates_def article_key_def substring_def toLowerCase_def
      lower_char_def titled_def)


section \<open>Chunking\<close>

lemma split_not_Nil: "split d s \<noteq> []"
  by (induction s) auto

lemma split_no_separator: "w \<in> set (split d s) \<Longrightarrow> d \<notin> set w"
proof (induction s arbitrary: w)
  case Nil
  then show ?case by simp
next
  case (Cons c cs)
  show ?case
  proof (cases "c = d")
    case True
    with Cons show ?thesis by auto
  next
    case False
    from split_not_Nil [of d cs] obtain v vs where v: "split d cs = v # vs"
      by (cases "split d cs") auto
    with Cons False show ?thesis by auto
  qed
qed

lemma split_append_separator:
  "d \<notin> set w \<Longrightarrow> split d (w @ d # rest) = w # split d rest"
  by (induction w) auto

lemma split_word: "d \<notin> set w \<Longrightarrow> split d w = [w]"
  by (induction w) auto

lemma split_join:
  "ws \<noteq> [] \<Longrightarrow> (\<forall>w\<in>set ws. d \<notin> set w) \<Longrightarrow> split d (join [d] ws) = ws"
proof (induction ws)
  case Nil
  then show ?case by simp
next
  case (Cons w ws)
  show ?case
  proof (cases ws)
    case Nil
    with Cons.prems show ?thesis by (simp add: split_word)
  next
    case (Cons v vs)
    with Cons.IH Cons.prems show ?thesis by (simp add: split_append_separator)
  qed
qed

lemma trim_clean: "s \<noteq> [] \<Longrightarrow> \<not> is_ws (hd s) \<Longrightarrow> \<not> is_ws (last s) \<Longrightarrow> trim s = s"
proof -
  assume s: "s \<noteq> []" and h: "\<not> is_ws (hd s)" and l: "\<not> is_ws (last s)"
  from s h have 1: "dropWhile is_ws s = s" by (cases s) auto
  from s l have 2: "dropWhile is_ws (rev s) = rev s"
    by (cases "rev s") (auto simp: last_rev [symmetric] simp del: last_rev)
  show ?thesis by (simp add: trim_def 1 2)
qed

lemma join_clean:
  assumes "ws \<noteq> []" and "\<forall>w\<in>set ws. w \<noteq> [] \<and> \<not> is_ws (hd w) \<and> \<not> is_ws (last w)"
  shows "join d ws \<noteq> [] \<and> hd (join d ws) = hd (hd ws) \<and> last (join d ws) = last (last ws)"
  using assms
proof (induction ws)
  case Nil
  then show ?case by simp
next
  case (Cons w ws)
  show ?case
  proof (cases ws)
    case Nil
    with Cons.prems show ?thesis by simp
  next
    case (Cons v vs)
    with Cons.IH Cons.prems show ?thesis by simp
  qed
qed


lemma ceil_div_step:
  assumes "0 < d" and "i < (W::nat)"
  shows "(W - i + d - 1) div d = Suc ((W - (i + d) + d - 1) div d)"
proof (cases "W - i \<le> d")
  case True
  then have "W - (i + d) = 0" by simp
  moreover have "(W - i + d - 1) div d = 1"
  proof -
    have e: "W - i + d - 1 = (W - i - 1) + d" using assms by simp
    have l: "W - i - 1 < d" using True assms by simp
    have "((W - i - 1) + d) div d = (W - i - 1) div d + 1"
      using assms(1) by (intro div_add_self2) simp
    also have "(W - i - 1) div d = 0" using l by (rule div_less)
    finally show ?thesis unfolding e by simp
  qed
  ultimately show ?thesis using assms(1) by simp
next
  case False
  then have e: "W - i + d - 1 = (W - (i + d) + d - 1) + d" by simp
  have "((W - (i + d) + d - 1) + d) div d = (W - (i + d) + d - 1) div d + 1"
    using assms(1) by (intro div_add_self2) simp
  then show ?thesis unfolding e by simp
qed

lemma chunk_loop_clean:
  assumes d: "overlap < maxChunkSize"
    and clean: "\<forall>w\<in>set words. w \<noteq> [] \<and> \<not> is_ws (hd w) \<and> \<not> is_ws (last w)"
  shows "chunk_loop words maxChunkSize overlap i chunks =
     Some (chunks @
       map (\<lambda>j. join '' '' (take maxChunkSize (drop (i + j * (maxChunkSize - overlap)) words)))
         [0..<(length words - i + (maxChunkSize - overlap) - 1) div (maxChunkSize - overlap)])"
proof (induction "length words - i" arbitrary: i chunks rule: less_induct)
  case less
  let ?d = "maxChunkSize - overlap"
  have dpos: "0 < ?d" using d by simp
  show ?case
  proof (cases "i < length words")
    case False
    then have "(length words - i + ?d - 1) div ?d = 0" using dpos by simp
    with False show ?thesis by (subst chunk_loop.simps) simp
  next
    case True
    let ?window = "take maxChunkSize (drop i words)"
    let ?chunk = "join '' '' ?window"
    have ne: "?window \<noteq> []" using True d by simp
    have sub: "set ?window \<subseteq> set words"
      by (meson in_set_dropD in_set_takeD subsetI)
    with clean have cw: "\<forall>w\<in>set ?window. w \<noteq> [] \<and> \<not> is_ws (hd w) \<and> \<not> is_ws (last w)"
      by blast
    from join_clean [OF ne cw, of "'' ''"]
    have j: "?chunk \<noteq> []" "hd ?chunk = hd (hd ?window)" "last ?chunk = last (last ?window)"
      by simp_all
    have "hd ?window \<in> set ?window" "last ?window \<in> set ?window"
      by (rule hd_in_set [OF ne], rule last_in_set [OF ne])
    with cw j have "\<not> is_ws (hd ?chunk)" "\<not> is_ws (last ?chunk)" by auto
    with j(1) have t: "trim ?chunk = ?chunk" by (intro trim_clean)
    have step: "chunk_loop words maxChunkSize overlap i chunks =
                chunk_loop words maxChunkSize overlap (i + ?d) (chunks @ [?chunk])"
      using True t j(1) by (subst chunk_loop.simps) (simp add: Let_def)
    have "length words - (i + ?d) < length words - i" using True dpos by arith
    note ih = less.hyps [OF this, of "chunks @ [?chunk]"]
    have n: "(length words - i + ?d - 1) div ?d = Suc ((length words - (i + ?d) + ?d - 1) div ?d)"
      by (rule ceil_div_step [OF dpos True])
    show ?thesis unfolding step ih n map_upt_Suc by (simp add: add.assoc add.commute)
  qed
qed


lemma concat_windows:
  "concat (map (\<lambda>j. take d (drop (j * d) xs)) [0..<n]) = take (n * d) xs"
proof (induction n)
  case 0
  then show ?case by simp
next
  case (Suc n)
  have "take (n * d + d) xs = take (n * d) xs @ take d (drop (n * d) xs)"
    by (rule take_add)
  with Suc show ?case by (simp add: add.commute)
qed

lemma ceil_div_bounds:
  assumes "0 < (d::nat)"
  shows "W \<le> ((W + d - 1) div d) * d" and "j < (W + d - 1) div d \<Longrightarrow> j * d < W"
proof -
  let ?m = "(W + d - 1) div d"
  have "W + d - 1 = ?m * d + (W + d - 1) mod d" by simp
  moreover have "(W + d - 1) mod d < d" using assms by simp
  ultimately show "W \<le> ?m * d" by linarith
  assume "j < ?m"
  then have "Suc j \<le> ?m" by simp
  then have "Suc j * d \<le> ?m * d" by (rule mult_le_mono1)
  also have "?m * d \<le> W + d - 1" by (rule div_times_less_eq_dividend)
  finally show "j * d < W" using assms by simp
qed


text \<open>
  Claim C3, for the inputs that are words separated by single spaces. When every piece of
  \<open>contents.split(" ")\<close> is non-empty and neither begins nor ends with a white-space
  character, and \<open>overlap < maxChunkSize\<close>, then \<open>chunkContent\<close> returns, and with
  \<open>W\<close> the number of words: it returns exactly \<open>ceil (W / (maxChunkSize - overlap))\<close>
  chunks; every chunk has at most \<open>maxChunkSize\<close> words; and the words of the first
  chunk, followed by the words of each later chunk without its first \<open>overlap\<close> words,
  are the words of the input.
\<close>

theorem chunkContent_single_spaced:
  assumes "overlap < maxChunkSize"
    and "\<forall>w\<in>set (split CHR '' '' contents). w \<noteq> [] \<and> \<not> is_ws (hd w) \<and> \<not> is_ws (last w)"
  shows "\<exists>c cs. chunkContent contents maxChunkSize overlap = Some (c # cs)
      \<and> length (c # cs) =
          (length (split CHR '' '' contents) + (maxChunkSize - overlap) - 1)
            div (maxChunkSize - overlap)
      \<and> (\<forall>ch\<in>set (c # cs). length (split CHR '' '' ch) \<le> maxChunkSize)
      \<and> split CHR '' '' c @ concat (map (\<lambda>ch. drop overlap (split CHR '' '' ch)) cs) =
          split CHR '' '' contents"
proof -
  let ?words = "split CHR '' '' contents"
  let ?W = "length ?words"
  let ?d = "maxChunkSize - overlap"
  let ?m = "(?W + ?d - 1) div ?d"
  let ?window = "\<lambda>j. take maxChunkSize (drop (j * ?d) ?words)"
  let ?f = "\<lambda>j. join '' '' (?window j)"
  have dpos: "0 < ?d" using assms(1) by simp
  have Wpos: "0 < ?W" using split_not_Nil [of "CHR '' ''" contents] by simp
  have mpos: "0 < ?m"
  proof (rule ccontr)
    assume "\<not> 0 < ?m"
    then have "?m = 0" by simp
    then have "?m * ?d = 0" by (simp only: mult_0)
    with ceil_div_bounds(1) [OF dpos, of ?W] have "?W \<le> 0" by (simp only:)
    with Wpos show False by simp
  qed
  have loop: "chunk_loop ?words maxChunkSize overlap 0 [] = Some (map ?f [0..<?m])"
    using chunk_loop_clean [OF assms, of 0 "[]"] by simp
  have split_f: "split CHR '' '' (?f j) = ?window j" if "j < ?m" for j
  proof -
    from ceil_div_bounds(2) [OF dpos that] have "j * ?d < ?W" .
    then have ne: "?window j \<noteq> []" using assms(1) by simp
    have "\<forall>w\<in>set (?window j). CHR '' '' \<notin> set w"
      by (meson in_set_dropD in_set_takeD split_no_separator)
    from split_join [OF ne this] show ?thesis by simp
  qed
  obtain k where k: "?m = Suc k" using mpos by (cases ?m) auto
  let ?c = "?f 0"
  let ?cs = "map (\<lambda>j. ?f (Suc j)) [0..<k]"
  have chunks: "map ?f [0..<?m] = ?c # ?cs" unfolding k by (rule map_upt_Suc)
  have "map ?f [0..<?m] \<noteq> []" using mpos by simp
  then have "chunkContent contents maxChunkSize overlap = Some (map ?f [0..<?m])"
    unfolding chunkContent_def loop by simp
  then have 1: "chunkContent contents maxChunkSize overlap = Some (?c # ?cs)"
    by (simp only: chunks)
  have 2: "length (?c # ?cs) = ?m" using k by simp
  have 3: "\<forall>ch\<in>set (?c # ?cs). length (split CHR '' '' ch) \<le> maxChunkSize"
  proof
    fix ch assume "ch \<in> set (?c # ?cs)"
    then have "ch \<in> set (map ?f [0..<?m])" by (simp only: chunks)
    then obtain j where "j < ?m" "ch = ?f j" by auto
    with split_f [of j] show "length (split CHR '' '' ch) \<le> maxChunkSize" by simp
  qed
  have later: "drop overlap (split CHR '' '' (?f (Suc j))) =
                 take ?d (drop (j * ?d) (drop maxChunkSize ?words))" if "j < k" for j
  proof -
    from that k have "Suc j < ?m" by simp
    then have "split CHR '' '' (?f (Suc j)) = ?window (Suc j)" by (rule split_f)
    moreover have "overlap + Suc j * ?d = j * ?d + maxChunkSize" using assms(1) by simp
    ultimately show ?thesis by (simp add: drop_take add.commute)
  qed
  have "map (\<lambda>ch. drop overlap (split CHR '' '' ch)) ?cs =
          map (\<lambda>j. take ?d (drop (j * ?d) (drop maxChunkSize ?words))) [0..<k]"
    using later by (simp add: comp_def)
  then have "concat (map (\<lambda>ch. drop overlap (split CHR '' '' ch)) ?cs) =
          take (k * ?d) (drop maxChunkSize ?words)"
    by (simp only: concat_windows)
  also have "\<dots> = drop maxChunkSize ?words"
  proof -
    from ceil_div_bounds(1) [OF dpos, of ?W] k have "?W \<le> k * ?d + ?d" by simp
    then have "length (drop maxChunkSize ?words) \<le> k * ?d" using assms(1) by simp
    then show ?thesis by (rule take_all)
  qed
  finally have rest: "concat (map (\<lambda>ch. drop overlap (split CHR '' '' ch)) ?cs) =
          drop maxChunkSize ?words" .
  have first: "split CHR '' '' ?c = take maxChunkSize ?words"
    using split_f [OF mpos] by simp
  have 4: "split CHR '' '' ?c @ concat (map (\<lambda>ch. drop overlap (split CHR '' '' ch)) ?cs) = ?words"
    unfolding rest first by (rule append_take_drop_id)
  from 1 2 3 4 show ?thesis by blast
qed



theorem chunkContent_single_spaced_witness:
  "\<exists>c cs. chunkContent ''a b c d e'' 3 1 = Some (c # cs)
      \<and> length (c # cs) = 3
      \<and> split CHR '' '' c @ concat (map (\<lambda>ch. drop 1 (split CHR '' '' ch)) cs) =
          [''a'', ''b'', ''c'', ''d'', ''e'']"
proof -
  have w: "split CHR '' '' ''a b c d e'' = [''a'', ''b'', ''c'', ''d'', ''e'']" by simp
  have 1: "(1::nat) < 3" by simp
  have 2: "\<forall>w\<in>set (split CHR '' '' ''a b c d e''). w \<noteq> [] \<and> \<not> is_ws (hd w) \<and> \<not> is_ws (last w)"
    unfolding w by (simp add: is_ws_def)
  from chunkContent_single_spaced [OF 1 2] show ?thesis unfolding w by auto
qed


text \<open>
  Without that condition the reconstruction fails. The pieces of \<open>"a  b"\<close> (two
  spaces) are \<open>a\<close>, the empty string and \<open>b\<close>; with a chunk size of 2 and an overlap
  of 1 the windows are trimmed to the chunks \<open>a\<close>, \<open>b\<close>, \<open>b\<close>, and removing the
  one-word overlap of the second and the third leaves the single word \<open>a\<close>: neither
  the pieces of the input nor its non-empty words.
\<close>

theorem chunkContent_reconstruction_counterexample:
  "chunkContent ''a  b'' 2 1 = Some [''a'', ''b'', ''b'']
   \<and> split CHR '' '' ''a'' @ concat (map (\<lambda>ch. drop 1 (split CHR '' '' ch)) [''b'', ''b'']) = [''a'']
   \<and> split CHR '' '' ''a  b'' = [''a'', [], ''b'']
   \<and> split CHR '' '' ''a'' @ concat (map (\<lambda>ch. drop 1 (split CHR '' '' ch)) [''b'', ''b''])
         \<noteq> split CHR '' '' ''a  b''
   \<and> split CHR '' '' ''a'' @ concat (map (\<lambda>ch. drop 1 (split CHR '' '' ch)) [''b'', ''b''])
         \<noteq> removeAll [] (split CHR '' '' ''a  b'')"
  by (simp add: chunkContent_def chunk_loop.simps trim_def is_ws_def)

text \<open>
  A thousand words with the default sizes: three chunks, of the words 0--499, 450--949
  and 900--999, and the first 50 words of the second chunk are the last 50 of the first.
\<close>

lemma chunkContent_1000_words:
  assumes "length ws = 1000"
    and "\<forall>w\<in>set ws. w \<noteq> [] \<and> CHR '' '' \<notin> set w \<and> \<not> is_ws (hd w) \<and> \<not> is_ws (last w)"
  shows "chunkContent (join '' '' ws) 500 50 =
           Some [join '' '' (take 500 ws), join '' '' (take 500 (drop 450 ws)),
                 join '' '' (drop 900 ws)]"
    and "take 50 (take 500 (drop 450 ws)) = drop 450 (take 500 ws)"
proof -
  have ne: "ws \<noteq> []" using assms(1) by auto
  have sp: "split CHR '' '' (join '' '' ws) = ws"
    using split_join [OF ne, of "CHR '' ''"] assms(2) by simp
  have clean: "\<forall>w\<in>set ws. w \<noteq> [] \<and> \<not> is_ws (hd w) \<and> \<not> is_ws (last w)"
    using assms(2) by blast
  have o: "(50::nat) < 500" by simp
  have n: "[0..<(length ws - 0 + (500 - 50) - 1) div (500 - 50)] = [0, 1, 2]"
    using assms(1) by (simp add: upt_conv_Cons)
  have "chunk_loop ws 500 50 0 [] =
          Some [join '' '' (take 500 ws), join '' '' (take 500 (drop 450 ws)),
                join '' '' (take 500 (drop 900 ws))]"
    unfolding chunk_loop_clean [OF o clean] n by simp
  moreover have "take 500 (drop 900 ws) = drop 900 ws" using assms(1) by simp
  ultimately show "chunkContent (join '' '' ws) 500 50 =
           Some [join '' '' (take 500 ws), join '' '' (take 500 (drop 450 ws)),
                 join '' '' (drop 900 ws)]"
    by (simp add: chunkContent_def sp)
  show "take 50 (take 500 (drop 450 ws)) = drop 450 (take 500 ws)"
    by (simp add: drop_take)
qed


section \<open>Retries and fallback records\<close>

lemma calls_append [simp]: "calls (xs @ ys) = calls xs + calls ys"
  by (simp add: calls_def)

lemma calls_Request [simp]: "calls (Request posted # xs) = Suc (calls xs)"
  by (simp add: calls_def)

lemma calls_Wait [simp]: "calls (Wait ms # xs) = calls xs"
  by (simp add: calls_def)

lemma calls_Nil [simp]: "calls [] = 0"
  by (simp add: calls_def)

text \<open>
  The run of \<open>generateBatchEmbeddings\<close> from retry count \<open>r\<close>: some number \<open>a\<close> of
  attempts fail and are followed by a wait each, then one more request gives the result.
\<close>

lemma generateBatchEmbeddings_trace:
  "\<exists>a. r + a \<le> max r (maxRetries svc)
     \<and> (\<forall>k<a. try_block (provider (calls events + k) texts) = None)
     \<and> (try_block (provider (calls events + a) texts) = None \<longrightarrow> maxRetries svc \<le> r + a)
     \<and> generateBatchEmbeddings svc provider texts r events =
         ((case try_block (provider (calls events + a) texts) of
             Some embeddings \<Rightarrow> embeddings | None \<Rightarrow> fallback_records texts),
          events @ concat (map (\<lambda>k. [Request texts, Wait (retryDelay svc * 2 ^ k)]) [r..<r + a])
            @ [Request texts])"
proof (induction svc provider texts r events rule: generateBatchEmbeddings.induct)
  case (1 svc provider texts retryCount events)
  note unf = generateBatchEmbeddings.simps [of svc provider texts retryCount events]
  show ?case
  proof (cases "try_block (provider (calls events) texts)")
    case (Some embeddings)
    then show ?thesis by (intro exI [of _ 0]) (simp add: unf)
  next
    case None
    show ?thesis
    proof (cases "retryCount < maxRetries svc")
      case False
      with None show ?thesis by (intro exI [of _ 0]) (simp add: unf)
    next
      case True
      let ?ev1 = "events @ [Request texts, Wait (retryDelay svc * 2 ^ retryCount)]"
      from "1.IH" [OF None True] obtain a where a:
        "retryCount + 1 + a \<le> max (retryCount + 1) (maxRetries svc)
         \<and> (\<forall>k<a. try_block (provider (calls ?ev1 + k) texts) = None)
         \<and> (try_block (provider (calls ?ev1 + a) texts) = None \<longrightarrow> maxRetries svc \<le> retryCount + 1 + a)
         \<and> generateBatchEmbeddings svc provider texts (retryCount + 1) ?ev1 =
         ((case try_block (provider (calls ?ev1 + a) texts) of
             Some embeddings \<Rightarrow> embeddings | None \<Rightarrow> fallback_records texts),
          ?ev1 @ concat (map (\<lambda>k. [Request texts, Wait (retryDelay svc * 2 ^ k)])
                   [retryCount + 1..<retryCount + 1 + a]) @ [Request texts])" ..
      have c: "calls ?ev1 = Suc (calls events)" by simp
      from a have a1: "retryCount + 1 + a \<le> max (retryCount + 1) (maxRetries svc)"
        by (rule conjunct1)
      from a have a2: "\<forall>k<a. try_block (provider (Suc (calls events) + k) texts) = None"
        unfolding c by (elim conjE)
      from a have a3: "try_block (provider (Suc (calls events) + a) texts) = None \<longrightarrow>
          maxRetries svc \<le> retryCount + 1 + a"
        unfolding c by (elim conjE)
      from a have a4: "generateBatchEmbeddings svc provider texts (retryCount + 1) ?ev1 =
         ((case try_block (provider (Suc (calls events) + a) texts) of
             Some embeddings \<Rightarrow> embeddings | None \<Rightarrow> fallback_records texts),
          ?ev1 @ concat (map (\<lambda>k. [Request texts, Wait (retryDelay svc * 2 ^ k)])
                   [retryCount + 1..<retryCount + 1 + a]) @ [Request texts])"
        unfolding c by (elim conjE)
      have b1: "retryCount + Suc a \<le> max retryCount (maxRetries svc)"
        using a1 True by simp
      have b2: "\<forall>k<Suc a. try_block (provider (calls events + k) texts) = None"
      proof (intro allI impI)
        fix k assume "k < Suc a"
        then show "try_block (provider (calls events + k) texts) = None"
          using None a2 by (cases k) auto
      qed
      have b3: "try_block (provider (calls events + Suc a) texts) = None \<longrightarrow>
          maxRetries svc \<le> retryCount + Suc a"
        using a3 by simp
      have b4: "generateBatchEmbeddings svc provider texts retryCount events =
         ((case try_block (provider (calls events + Suc a) texts) of
             Some embeddings \<Rightarrow> embeddings | None \<Rightarrow> fallback_records texts),
          events @ concat (map (\<lambda>k. [Request texts, Wait (retryDelay svc * 2 ^ k)])
                     [retryCount..<retryCount + Suc a]) @ [Request texts])"
      proof -
        have "[retryCount..<retryCount + Suc a] = retryCount # [Suc retryCount..<retryCount + Suc a]"
          by (rule upt_conv_Cons) simp
        then have "[retryCount..<retryCount + Suc a] =
                     retryCount # [retryCount + 1..<retryCount + 1 + a]"
          by simp
        then show ?thesis using None True a4 by (simp add: unf)
      qed
      show ?thesis
        apply (rule exI [of _ "Suc a"])
        using b1 b2 b3 b4 by simp
    qed
  qed
qed


lemma try_block_Some:
  "try_block r = Some e \<Longrightarrow>
     \<exists>items. r = Response (Some items)
       \<and> e = map (\<lambda>item. \<lparr>embedding = embedding item, index = index item, failed = False\<rparr>) items"
  by (auto simp: try_block_def Let_def split: api_result.splits option.splits if_splits)

lemma try_block_Rejected: "try_block Rejected = None"
  by (simp add: try_block_def)

lemma length_fallback_records: "length (fallback_records texts) = length texts"
  by (simp add: fallback_records_def)

lemma nth_fallback_records:
  "i < length texts \<Longrightarrow>
     fallback_records texts ! i = \<lparr>embedding = Some (replicate 768 0), index = i, failed = True\<rparr>"
  by (simp add: fallback_records_def)

text \<open>
  Claim C8. For every batch, \<open>generateBatchEmbeddings\<close> returns (the function is
  total) after between 1 and \<open>maxRetries + 1\<close> requests; after the \<open>k\<close>-th failed attempt
  (counted from 0) and before the next request it waits \<open>retryDelay * 2 ^ k\<close>, and it
  waits at no other time; every attempt but the last failed; and the result is the last
  answer when that attempt succeeded, and otherwise, after exactly \<open>maxRetries + 1\<close>
  attempts, the fallback records.
\<close>

theorem generateBatchEmbeddings_bounded_retries:
  "\<exists>attempts recs.
      1 \<le> attempts \<and> attempts \<le> maxRetries svc + 1
      \<and> generateBatchEmbeddings svc provider texts 0 events =
          (recs,
           events @ concat (map (\<lambda>k. [Request texts, Wait (retryDelay svc * 2 ^ k)])
                             [0..<attempts - 1]) @ [Request texts])
      \<and> (\<forall>k<attempts - 1. try_block (provider (calls events + k) texts) = None)
      \<and> (case try_block (provider (calls events + (attempts - 1)) texts) of
            Some embeddings \<Rightarrow> recs = embeddings
          | None \<Rightarrow> attempts = maxRetries svc + 1 \<and> recs = fallback_records texts)"
proof -
  from generateBatchEmbeddings_trace [of 0 svc provider events texts] obtain a where
    a: "0 + a \<le> max 0 (maxRetries svc)"
    "\<forall>k<a. try_block (provider (calls events + k) texts) = None"
    "try_block (provider (calls events + a) texts) = None \<longrightarrow> maxRetries svc \<le> 0 + a"
    "generateBatchEmbeddings svc provider texts 0 events =
         ((case try_block (provider (calls events + a) texts) of
             Some embeddings \<Rightarrow> embeddings | None \<Rightarrow> fallback_records texts),
          events @ concat (map (\<lambda>k. [Request texts, Wait (retryDelay svc * 2 ^ k)]) [0..<0 + a])
            @ [Request texts])"
    by (elim exE conjE)
  show ?thesis
    apply (rule exI [of _ "a + 1"])
    apply (rule exI [of _ "case try_block (provider (calls events + a) texts) of
             Some embeddings \<Rightarrow> embeddings | None \<Rightarrow> fallback_records texts"])
    using a by (auto split: option.splits)
qed

theorem generateBatchEmbeddings_bounded_retries_witness:
  "generateBatchEmbeddings (new_EmbeddingsService (Some ''key'')) (\<lambda>n batch. Rejected)
         [''a''] 0 [] =
     (fallback_records [''a''],
      [Request [''a''], Wait 1000, Request [''a''], Wait 2000, Request [''a''], Wait 4000,
       Request [''a'']])"
proof -
  let ?svc = "new_EmbeddingsService (Some ''key'')"
  from generateBatchEmbeddings_bounded_retries [of ?svc "\<lambda>n batch. Rejected" "[''a'']" "[]"]
  obtain attempts recs where
    r: "attempts \<le> maxRetries ?svc + 1"
     "generateBatchEmbeddings ?svc (\<lambda>n batch. Rejected) [''a''] 0 [] =
          (recs,
           [] @ concat (map (\<lambda>k. [Request [''a''], Wait (retryDelay ?svc * 2 ^ k)])
                             [0..<attempts - 1]) @ [Request [''a'']])"
     "case try_block ((\<lambda>n batch. Rejected) (calls [] + (attempts - 1)) [''a'']) of
            Some embeddings \<Rightarrow> recs = embeddings
          | None \<Rightarrow> attempts = maxRetries ?svc + 1 \<and> recs = fallback_records [''a'']"
    by (elim exE conjE)
  from r(3) have "attempts = 4" "recs = fallback_records [''a'']"
    by (simp_all add: try_block_Rejected new_EmbeddingsService_def)
  moreover have "[0..<3] = [0, 1, 2::nat]" by (simp add: upt_conv_Cons)
  ultimately show ?thesis using r(2) by (simp add: new_EmbeddingsService_def)
qed

text \<open>
  Claim C5. When every request of a batch fails, from the first to the one after the last
  retry, \<open>generateBatchEmbeddings\<close> returns the fallback records: one per text, the
  record at position \<open>i\<close> with index \<open>i\<close>, the flag \<open>failed\<close> set, and a vector
  of 768 zeros.
\<close>

theorem generateBatchEmbeddings_fallback:
  assumes "\<forall>n. calls events \<le> n \<and> n \<le> calls events + maxRetries svc \<longrightarrow>
             try_block (provider n texts) = None"
  shows "fst (generateBatchEmbeddings svc provider texts 0 events) = fallback_records texts
         \<and> length (fallback_records texts) = length texts
         \<and> (\<forall>i<length texts. fallback_records texts ! i =
               \<lparr>embedding = Some (replicate 768 0), index = i, failed = True\<rparr>)
         \<and> length (replicate 768 (0::real)) = 768 \<and> set (replicate 768 (0::real)) = {0}"
proof -
  from generateBatchEmbeddings_trace [of 0 svc provider events texts] obtain a where
    a: "0 + a \<le> max 0 (maxRetries svc)"
    "generateBatchEmbeddings svc provider texts 0 events =
         ((case try_block (provider (calls events + a) texts) of
             Some embeddings \<Rightarrow> embeddings | None \<Rightarrow> fallback_records texts),
          events @ concat (map (\<lambda>k. [Request texts, Wait (retryDelay svc * 2 ^ k)]) [0..<0 + a])
            @ [Request texts])"
    by (elim exE conjE)
  from a(1) assms have "try_block (provider (calls events + a) texts) = None" by simp
  with a(2) show ?thesis by (simp add: length_fallback_records nth_fallback_records)
qed

theorem generateBatchEmbeddings_fallback_witness:
  "fst (generateBatchEmbeddings (new_EmbeddingsService (Some ''key'')) (\<lambda>n batch. Rejected)
         [''a'', ''b''] 0 []) =
     [\<lparr>embedding = Some (replicate 768 0), index = 0, failed = True\<rparr>,
      \<lparr>embedding = Some (replicate 768 0), index = 1, failed = True\<rparr>]"
  using generateBatchEmbeddings_fallback [of "[]"
      "new_EmbeddingsService (Some ''key'')" "\<lambda>n batch. Rejected" "[''a'', ''b'']"]
  by (simp add: try_block_Rejected fallback_records_def)


section \<open>Batches\<close>

lemma generateBatchEmbeddings_aligned:
  assumes aligned: "\<And>n items. provider n batch = Response (Some items) \<Longrightarrow>
             length items = length batch \<and> (\<forall>j<length items. index (items ! j) = j)"
  shows "length (fst (generateBatchEmbeddings svc provider batch r events)) = length batch
         \<and> (\<forall>j<length batch.
               index (fst (generateBatchEmbeddings svc provider batch r events) ! j) = j)"
proof -
  from generateBatchEmbeddings_trace [of r svc provider events batch] obtain a where
    "generateBatchEmbeddings svc provider batch r events =
         ((case try_block (provider (calls events + a) batch) of
             Some embeddings \<Rightarrow> embeddings | None \<Rightarrow> fallback_records batch),
          events @ concat (map (\<lambda>k. [Request batch, Wait (retryDelay svc * 2 ^ k)]) [r..<r + a])
            @ [Request batch])"
    by (elim exE conjE)
  then have res: "fst (generateBatchEmbeddings svc provider batch r events) =
         (case try_block (provider (calls events + a) batch) of
             Some embeddings \<Rightarrow> embeddings | None \<Rightarrow> fallback_records batch)"
    by simp
  show ?thesis
  proof (cases "try_block (provider (calls events + a) batch)")
    case None
    then show ?thesis unfolding res by (simp add: length_fallback_records nth_fallback_records)
  next
    case (Some e)
    from try_block_Some [OF Some] obtain items where
      items: "provider (calls events + a) batch = Response (Some items)"
        "e = map (\<lambda>item. \<lparr>embedding = embedding item, index = index item, failed = False\<rparr>) items"
      by blast
    from aligned [OF items(1)] show ?thesis unfolding res Some by (simp add: items(2))
  qed
qed

lemma batches_loop_total:
  assumes B: "0 < batchSize svc"
    and aligned: "\<And>n batch items. provider n batch = Response (Some items) \<Longrightarrow>
             length items = length batch \<and> (\<forall>j<length items. index (items ! j) = j)"
  shows "length acc = min i (length texts) \<Longrightarrow> batchSize svc dvd i \<Longrightarrow>
         (\<forall>k<length acc. index (acc ! k) = k mod batchSize svc) \<Longrightarrow>
         \<exists>recs events'. batches_loop svc provider texts i acc events = Some (recs, events')
           \<and> length recs = length texts
           \<and> (\<forall>k<length texts. index (recs ! k) = k mod batchSize svc)"
proof (induction "length texts - i" arbitrary: i acc events rule: less_induct)
  case less
  show ?case
  proof (cases "i < length texts")
    case False
    with less.prems show ?thesis by (subst batches_loop.simps) simp
  next
    case True
    let ?B = "batchSize svc"
    let ?batch = "take ?B (drop i texts)"
    obtain be ev1 where g: "generateBatchEmbeddings svc provider ?batch 0 events = (be, ev1)"
      by (cases "generateBatchEmbeddings svc provider ?batch 0 events")
    let ?ev2 = "if i + ?B < length texts then ev1 @ [Wait 500] else ev1"
    from generateBatchEmbeddings_aligned [of provider ?batch svc 0 events] aligned g
    have lb: "length be = length ?batch" and ib: "\<forall>j<length ?batch. index (be ! j) = j"
      by auto
    have len: "length (acc @ be) = min (i + ?B) (length texts)"
      using less.prems(1) True lb by simp
    have dvd: "?B dvd i + ?B" using less.prems(2) by simp
    have idx: "\<forall>k<length (acc @ be). index ((acc @ be) ! k) = k mod ?B"
    proof (intro allI impI)
      fix k assume k: "k < length (acc @ be)"
      show "index ((acc @ be) ! k) = k mod ?B"
      proof (cases "k < length acc")
        case True
        then show ?thesis using less.prems(3) by (simp add: nth_append)
      next
        case False
        have la: "length acc = i" using less.prems(1) \<open>i < length texts\<close> by simp
        with False k lb have kb: "k - i < length ?batch" "i \<le> k" by auto
        then have "k - i < ?B" by simp
        moreover from less.prems(2) obtain q where "i = ?B * q" by (auto simp: dvd_def)
        ultimately have "k mod ?B = k - i" using kb(2)
          by (metis le_add_diff_inverse mod_less mod_mult_self4)
        with False la ib kb show ?thesis by (simp add: nth_append)
      qed
    qed
    have "length texts - (i + ?B) < length texts - i" using True B by arith
    from less.hyps [OF this len dvd idx, of ?ev2]
    show ?thesis
      using True g by (subst batches_loop.simps) simp
  qed
qed

text \<open>
  Claim C1. With an API key configured and a positive batch size, and a provider whose
  every answer carries one item per posted text with \<open>index\<close> equal to its position,
  \<open>generateEmbeddings\<close> returns, for every list of texts (or single text, which stands
  for the list of that text) and whichever requests fail or succeed, exactly one record
  per text, and the record at position \<open>k\<close> of the output is the one with index
  \<open>k mod batchSize\<close> of its batch: the batches follow one another in order, each in the
  order of its texts.
\<close>

theorem generateEmbeddings_one_record_per_text:
  assumes "has_key svc" and "0 < batchSize svc"
    and "\<forall>n batch items. provider n batch = Response (Some items) \<longrightarrow>
           length items = length batch \<and> (\<forall>j<length items. index (items ! j) = j)"
  shows "\<exists>recs events'. generateEmbeddings svc provider texts events = Some (recs, events')
           \<and> length recs = length (as_array texts)
           \<and> (\<forall>k<length (as_array texts). index (recs ! k) = k mod batchSize svc)"
proof -
  have "\<exists>recs events'. batches_loop svc provider (as_array texts) 0 [] events = Some (recs, events')
           \<and> length recs = length (as_array texts)
           \<and> (\<forall>k<length (as_array texts). index (recs ! k) = k mod batchSize svc)"
    using assms(2,3) by (intro batches_loop_total) simp_all
  then show ?thesis using assms(1) by (simp add: generateEmbeddings_def)
qed

theorem generateEmbeddings_one_record_per_text_witness:
  "\<exists>recs events'. generateEmbeddings (new_EmbeddingsService (Some ''key'')) mixed_provider
       (TextList (replicate 25 ''text'')) [] = Some (recs, events')
     \<and> length recs = 25 \<and> index (recs ! 22) = 2"
proof -
  have 1: "has_key (new_EmbeddingsService (Some ''key''))"
    by (simp add: has_key_def new_EmbeddingsService_def)
  have 2: "0 < batchSize (new_EmbeddingsService (Some ''key''))"
    by (simp add: new_EmbeddingsService_def)
  have 3: "\<forall>n batch items. mixed_provider n batch = Response (Some items) \<longrightarrow>
           length items = length batch \<and> (\<forall>j<length items. index (items ! j) = j)"
    by (auto simp: mixed_provider_def)
  from generateEmbeddings_one_record_per_text [OF 1 2 3, of "TextList (replicate 25 ''text'')" "[]"]
  obtain recs events' where r:
    "generateEmbeddings (new_EmbeddingsService (Some ''key'')) mixed_provider
       (TextList (replicate 25 ''text'')) [] = Some (recs, events')"
    "length recs = 25"
    "\<forall>k<25. index (recs ! k) = k mod batchSize (new_EmbeddingsService (Some ''key''))"
    by (auto simp: as_array_def)
  from r(3) have "index (recs ! 22) = 2" by (simp add: new_EmbeddingsService_def)
  with r(1,2) show ?thesis by blast
qed

text \<open>
  Claim C9. Without an API key (unset or empty) \<open>generateEmbeddings\<close> returns the
  empty list at once, for every input: no request is sent and nothing is awaited (the
  log of effects is unchanged), and no error is raised (the result is a value).
\<close>

theorem generateEmbeddings_without_key:
  assumes "\<not> has_key svc"
  shows "generateEmbeddings svc provider texts events = Some ([], events)"
  using assms by (simp add: generateEmbeddings_def)

theorem generateEmbeddings_without_key_witness:
  "generateEmbeddings (new_EmbeddingsService None) mixed_provider (TextList [''a'', ''b'']) [] =
     Some ([], [])
   \<and> generateEmbeddings (new_EmbeddingsService (Some [])) mixed_provider (SingleText ''a'') [] =
     Some ([], [])"
proof -
  have 1: "\<not> has_key (new_EmbeddingsService None)"
    by (simp add: has_key_def new_EmbeddingsService_def)
  have 2: "\<not> has_key (new_EmbeddingsService (Some []))"
    by (simp add: has_key_def new_EmbeddingsService_def)
  show ?thesis
    using generateEmbeddings_without_key [OF 1] generateEmbeddings_without_key [OF 2] by simp
qed

text \<open>
  Twenty-five texts and a provider that rejects every request: two batches, four requests
  each with waits of 1, 2 and 4 seconds between them and half a second between the
  batches, and 25 fallback records.
\<close>

lemma generateBatchEmbeddings_all_rejected:
  "generateBatchEmbeddings (new_EmbeddingsService key) (\<lambda>n batch. Rejected) texts 0 events =
     (fallback_records texts,
      events @ [Request texts, Wait 1000, Request texts, Wait 2000, Request texts, Wait 4000,
                Request texts])"
  by (simp add: generateBatchEmbeddings.simps try_block_def new_EmbeddingsService_def)

lemma generateEmbeddings_25_texts_all_rejected:
  "generateEmbeddings (new_EmbeddingsService (Some ''key'')) (\<lambda>n batch. Rejected)
     (TextList (replicate 25 t)) [] =
   Some (fallback_records (replicate 20 t) @ fallback_records (replicate 5 t),
         [Request (replicate 20 t), Wait 1000, Request (replicate 20 t), Wait 2000,
          Request (replicate 20 t), Wait 4000, Request (replicate 20 t), Wait 500,
          Request (replicate 5 t), Wait 1000, Request (replicate 5 t), Wait 2000,
          Request (replicate 5 t), Wait 4000, Request (replicate 5 t)])"
proof -
  have b: "batchSize (new_EmbeddingsService (Some ''key'')) = 20"
    by (simp add: new_EmbeddingsService_def)
  have t1: "take 20 (replicate 25 t) = replicate 20 t" by simp
  have t2: "take 20 (drop 20 (replicate 25 t)) = replicate 5 t" by simp
  show ?thesis
    by (simp add: generateEmbeddings_def has_key_def as_array_def batches_loop.simps b t1 t2
        generateBatchEmbeddings_all_rejected Let_def)
       (simp add: new_EmbeddingsService_def)
qed


section \<open>Cosine similarity\<close>

lemma cosine_loop:
  "n \<le> length vecA \<Longrightarrow> n \<le> length vecB \<Longrightarrow>
     fold (\<lambda>i (dotProduct, normA, normB).
             (num_add ar dotProduct (num_mul ar (vecA ! i) (vecB ! i)),
              num_add ar normA (num_mul ar (vecA ! i) (vecA ! i)),
              num_add ar normB (num_mul ar (vecB ! i) (vecB ! i))))
       [0..<n] (d, a, b) =
     (fold (\<lambda>(x, y) s. num_add ar s (num_mul ar x y)) (zip (take n vecA) (take n vecB)) d,
      fold (\<lambda>x s. num_add ar s (num_mul ar x x)) (take n vecA) a,
      fold (\<lambda>x s. num_add ar s (num_mul ar x x)) (take n vecB) b)"
proof (induction n)
  case 0
  then show ?case by simp
next
  case (Suc n)
  then have n: "n < length vecA" "n < length vecB" by simp_all
  have z: "zip (take (Suc n) vecA) (take (Suc n) vecB) =
             zip (take n vecA) (take n vecB) @ [(vecA ! n, vecB ! n)]"
    using n by (simp add: take_Suc_conv_app_nth)
  show ?case using Suc.IH n by (simp add: z) (simp add: take_Suc_conv_app_nth)
qed

lemma cosineSimilarity_equal_lengths:
  assumes "length vecA = length vecB"
  shows "cosineSimilarity ar vecA vecB =
     Inr (if is_zero ar (num_sqrt ar (fold (\<lambda>x s. num_add ar s (num_mul ar x x)) vecA (num_zero ar)))
           \<or> is_zero ar (num_sqrt ar (fold (\<lambda>x s. num_add ar s (num_mul ar x x)) vecB (num_zero ar)))
          then num_zero ar
          else num_div ar
                 (fold (\<lambda>(x, y) s. num_add ar s (num_mul ar x y)) (zip vecA vecB) (num_zero ar))
                 (num_mul ar
                    (num_sqrt ar (fold (\<lambda>x s. num_add ar s (num_mul ar x x)) vecA (num_zero ar)))
                    (num_sqrt ar (fold (\<lambda>x s. num_add ar s (num_mul ar x x)) vecB (num_zero ar)))))"
proof -
  have "length vecA \<le> length vecA" "length vecA \<le> length vecB" using assms by simp_all
  note l = cosine_loop [OF this, of ar "num_zero ar" "num_zero ar" "num_zero ar"]
  have t: "take (length vecA) vecB = vecB" using assms by simp
  show ?thesis
    unfolding cosineSimilarity_def l using assms by (simp add: t)
qed

lemma zero_square_sum:
  assumes mul: "\<forall>x y. is_zero ar x \<and> is_zero ar y \<longrightarrow> is_zero ar (num_mul ar x y)"
    and add: "\<forall>x y. is_zero ar x \<and> is_zero ar y \<longrightarrow> is_zero ar (num_add ar x y)"
  shows "is_zero ar acc \<Longrightarrow> \<forall>x\<in>set v. is_zero ar x \<Longrightarrow>
           is_zero ar (fold (\<lambda>x s. num_add ar s (num_mul ar x x)) v acc)"
proof (induction v arbitrary: acc)
  case Nil
  then show ?case by simp
next
  case (Cons x v)
  from Cons.prems have "is_zero ar (num_add ar acc (num_mul ar x x))"
    using mul add by simp
  with Cons.IH Cons.prems(2) show ?case by simp
qed

text \<open>
  Claim C10. In every arithmetic of numbers, \<open>cosineSimilarity\<close> raises an error exactly
  when the two vectors differ in length. For vectors of equal length it returns a value:
  the number 0 when the norm it has computed for either vector is \<open>=== 0\<close>, whatever a
  division by zero would give (none takes place), and otherwise the quotient of the dot
  product by the product of the two norms. Where the numbers \<open>=== 0\<close> are closed under
  \<open>*\<close>, \<open>+\<close> and \<open>Math.sqrt\<close>, as they are in the doubles, a vector of zeros has the
  norm 0, so that the result is 0 as soon as either vector is one.
\<close>

theorem cosineSimilarity_raises_iff_length_mismatch:
  fixes ar :: "'n arith" and vecA vecB :: "'n list"
  defines "normA \<equiv> num_sqrt ar (fold (\<lambda>x s. num_add ar s (num_mul ar x x)) vecA (num_zero ar))"
    and "normB \<equiv> num_sqrt ar (fold (\<lambda>x s. num_add ar s (num_mul ar x x)) vecB (num_zero ar))"
    and "dotProduct \<equiv>
           fold (\<lambda>(x, y) s. num_add ar s (num_mul ar x y)) (zip vecA vecB) (num_zero ar)"
  shows "((\<exists>e. cosineSimilarity ar vecA vecB = Inl e) \<longleftrightarrow> length vecA \<noteq> length vecB)
   \<and> (length vecA = length vecB \<longrightarrow>
        cosineSimilarity ar vecA vecB =
          Inr (if is_zero ar normA \<or> is_zero ar normB then num_zero ar
               else num_div ar dotProduct (num_mul ar normA normB)))
   \<and> (length vecA = length vecB \<and> (is_zero ar normA \<or> is_zero ar normB) \<longrightarrow>
        cosineSimilarity ar vecA vecB = Inr (num_zero ar))
   \<and> (is_zero ar (num_zero ar)
        \<and> (\<forall>x y. is_zero ar x \<and> is_zero ar y \<longrightarrow> is_zero ar (num_mul ar x y))
        \<and> (\<forall>x y. is_zero ar x \<and> is_zero ar y \<longrightarrow> is_zero ar (num_add ar x y))
        \<and> (\<forall>x. is_zero ar x \<longrightarrow> is_zero ar (num_sqrt ar x))
        \<and> length vecA = length vecB
        \<and> ((\<forall>x\<in>set vecA. is_zero ar x) \<or> (\<forall>x\<in>set vecB. is_zero ar x)) \<longrightarrow>
        cosineSimilarity ar vecA vecB = Inr (num_zero ar))"
proof (cases "length vecA = length vecB")
  case False
  then show ?thesis by (simp add: cosineSimilarity_def)
next
  case True
  note eq = cosineSimilarity_equal_lengths [OF True, of ar, folded normA_def normB_def dotProduct_def]
  have 4: "is_zero ar normA \<or> is_zero ar normB"
    if laws: "is_zero ar (num_zero ar)"
      "\<forall>x y. is_zero ar x \<and> is_zero ar y \<longrightarrow> is_zero ar (num_mul ar x y)"
      "\<forall>x y. is_zero ar x \<and> is_zero ar y \<longrightarrow> is_zero ar (num_add ar x y)"
      "\<forall>x. is_zero ar x \<longrightarrow> is_zero ar (num_sqrt ar x)"
      and z: "(\<forall>x\<in>set vecA. is_zero ar x) \<or> (\<forall>x\<in>set vecB. is_zero ar x)"
  proof -
    from z show ?thesis
    proof
      assume "\<forall>x\<in>set vecA. is_zero ar x"
      from zero_square_sum [OF laws(2,3) laws(1) this] laws(4)
      show ?thesis unfolding normA_def by simp
    next
      assume "\<forall>x\<in>set vecB. is_zero ar x"
      from zero_square_sum [OF laws(2,3) laws(1) this] laws(4)
      show ?thesis unfolding normB_def by simp
    qed
  qed
  show ?thesis using True eq 4 by auto
qed


text \<open>
  In the arithmetic of the examples the quotient that the guard avoids is \<open>0 / 0\<close>,
  which is \<open>NaN\<close>.
\<close>

lemma is_zero_range_arith: "is_zero range_arith x \<longleftrightarrow> x = Num 0"
  by (cases x) (simp_all add: is_zero_def range_arith_def)

lemma in_range_0: "in_range 0 = Num 0"
  by (simp add: in_range_def)

lemma range_arith_zero_laws:
  "is_zero range_arith (num_zero range_arith)"
  "\<forall>x y. is_zero range_arith x \<and> is_zero range_arith y \<longrightarrow>
     is_zero range_arith (num_mul range_arith x y)"
  "\<forall>x y. is_zero range_arith x \<and> is_zero range_arith y \<longrightarrow>
     is_zero range_arith (num_add range_arith x y)"
  "\<forall>x. is_zero range_arith x \<longrightarrow> is_zero range_arith (num_sqrt range_arith x)"
  by (simp_all add: is_zero_range_arith) (simp_all add: range_arith_def in_range_0)

theorem cosineSimilarity_raises_iff_length_mismatch_witness:
  "cosineSimilarity range_arith [Num 0, Num 0] [Num 3, Num 4] = Inr (Num 0)
   \<and> number_div (Num 0) (number_mul (Num 0) (Num 5)) = NaN
   \<and> (\<exists>r. cosineSimilarity range_arith [Num 3, Num 4] [Num 4, Num 3] = Inr r)
   \<and> (\<exists>e. cosineSimilarity range_arith [Num 1] [Num 1, Num 2] = Inl e)"
proof -
  have z: "\<forall>x\<in>set [Num 0, Num 0]. is_zero range_arith x"
    by (simp add: is_zero_range_arith)
  from cosineSimilarity_raises_iff_length_mismatch [of range_arith "[Num 0, Num 0]" "[Num 3, Num 4]"]
    range_arith_zero_laws z
  have 1: "cosineSimilarity range_arith [Num 0, Num 0] [Num 3, Num 4] = Inr (num_zero range_arith)"
    by simp
  have 2: "number_div (Num 0) (number_mul (Num 0) (Num 5)) = NaN"
    by (simp add: in_range_0)
  from cosineSimilarity_raises_iff_length_mismatch [of range_arith "[Num 3, Num 4]" "[Num 4, Num 3]"]
  have 3: "\<exists>r. cosineSimilarity range_arith [Num 3, Num 4] [Num 4, Num 3] = Inr r"
    by simp
  from cosineSimilarity_raises_iff_length_mismatch [of range_arith "[Num 1]" "[Num 1, Num 2]"]
  have 4: "\<exists>e. cosineSimilarity range_arith [Num 1] [Num 1, Num 2] = Inl e"
    by simp
  from 1 2 3 4 show ?thesis by (simp add: range_arith_def)
qed

text \<open>
  Beyond the range of the doubles: the squares of \<open>1e200\<close> overflow, the norms and the dot
  product are infinite and the quotient is \<open>NaN\<close>; the squares of \<open>1e-200\<close> underflow to
  zero, both norms are 0 and the guard returns 0.
\<close>

lemma cosineSimilarity_overflow:
  "cosineSimilarity range_arith [Num (10 ^ 200)] [Num (10 ^ 200)] = Inr NaN"
  by (simp add: cosineSimilarity_def range_arith_def is_zero_def in_range_def)

lemma cosineSimilarity_underflow:
  "cosineSimilarity range_arith [Num (1 / 10 ^ 200)] [Num (1 / 10 ^ 200)] = Inr (Num 0)"
  by (simp add: cosineSimilarity_def range_arith_def is_zero_def in_range_def)

lemma cosineSimilarity_same_direction:
  "cosineSimilarity range_arith [Num 3, Num 4] [Num 6, Num 8] = Inr (Num 1)"
proof -
  have "sqrt 25 = 5" "sqrt 100 = 10" by (simp_all add: real_sqrt_unique)
  then show ?thesis
    by (simp add: cosineSimilarity_def range_arith_def is_zero_def in_range_def upt_conv_Cons)
qed


section \<open>Session history\<close>

lemma length_push_capped: "length (push_capped messages message) \<le> 100"
  by (simp add: push_capped_def Let_def)

lemma push_capped_drop:
  "push_capped messages message =
     drop (length (messages @ [message]) - 100) (messages @ [message])"
  by (simp add: push_capped_def Let_def)

lemma getSessionInfo_present:
  "lookup_session m sessionId now = Some sd \<Longrightarrow> getSessionInfo m sessionId now = (sd, m)"
  by (simp add: getSessionInfo_def)

lemma getSessionInfo_redis:
  "redis (snd (getSessionInfo m sessionId now)) = None \<longleftrightarrow> redis m = None"
  by (auto simp: getSessionInfo_def createSession_def Let_def split: option.splits)

lemma getSessionInfo_sessionTTL:
  "sessionTTL (snd (getSessionInfo m sessionId now)) = sessionTTL m"
  by (auto simp: getSessionInfo_def createSession_def Let_def split: option.splits)

lemma getSessionInfo_ensures:
  "redis m = None \<or> 0 < sessionTTL m \<Longrightarrow>
     lookup_session (snd (getSessionInfo m sessionId now)) sessionId now \<noteq> None"
  by (auto simp: getSessionInfo_def createSession_def lookup_session_def redis_get_def
      redis_setex_def Let_def split: option.splits)

lemma addMessage_ensure:
  assumes "redis m = None \<or> 0 < sessionTTL m"
  shows "addMessage m sessionId message now =
         addMessage (snd (getSessionInfo m sessionId now)) sessionId message now"
proof -
  let ?m' = "snd (getSessionInfo m sessionId now)"
  from getSessionInfo_ensures [OF assms] obtain sd where
    "lookup_session ?m' sessionId now = Some sd" by blast
  then have "getSessionInfo ?m' sessionId now = (sd, ?m')" by (rule getSessionInfo_present)
  then have "snd (getSessionInfo ?m' sessionId now) = ?m'" by simp
  then show ?thesis unfolding addMessage_def by (simp only:)
qed

lemma addMessage_fallback:
  assumes "redis m = None" and "session_of (fallbackStorage m) sessionId = Some sd"
  shows "addMessage m sessionId message now =
     m\<lparr>fallbackStorage :=
         \<lparr>session_of = (session_of (fallbackStorage m))(sessionId \<mapsto>
             sd\<lparr>lastActivity := now,
                messageCount := length (push_capped (load_messages m sessionId now) message)\<rparr>),
          messages_of = (messages_of (fallbackStorage m))(sessionId \<mapsto>
             push_capped (load_messages m sessionId now) message)\<rparr>\<rparr>"
proof -
  have "lookup_session m sessionId now = Some sd"
    using assms by (simp add: lookup_session_def)
  then have g: "getSessionInfo m sessionId now = (sd, m)" by (rule getSessionInfo_present)
  show ?thesis using assms
    by (simp add: addMessage_def g load_messages_def Let_def)
qed

lemma addMessage_redis:
  assumes "redis m = Some db" and "redis_get (session_keys db) now sessionId = Some sd"
  shows "addMessage m sessionId message now =
     m\<lparr>redis := Some
         \<lparr>session_keys = redis_setex (session_keys db) now sessionId (sessionTTL m)
             (sd\<lparr>lastActivity := now,
                messageCount := length (push_capped (load_messages m sessionId now) message)\<rparr>),
          messages_keys = redis_setex (messages_keys db) now sessionId (sessionTTL m)
             (push_capped (load_messages m sessionId now) message)\<rparr>\<rparr>"
proof -
  have l: "lookup_session m sessionId now = Some sd"
    using assms by (simp add: lookup_session_def)
  then have g: "getSessionInfo m sessionId now = (sd, m)" by (rule getSessionInfo_present)
  let ?ms = "push_capped (load_messages m sessionId now) message"
  let ?m1 = "m\<lparr>redis := Some (db\<lparr>messages_keys :=
                 redis_setex (messages_keys db) now sessionId (sessionTTL m) ?ms\<rparr>)\<rparr>"
  have "lookup_session ?m1 sessionId now = Some sd"
    using assms by (simp add: lookup_session_def)
  then have g1: "getSessionInfo ?m1 sessionId now = (sd, ?m1)"
    by (rule getSessionInfo_present)
  have ld: "(case redis_get (messages_keys db) now sessionId of None \<Rightarrow> [] | Some ms \<Rightarrow> ms) =
              load_messages m sessionId now"
    using assms(1) by (simp add: load_messages_def)
  show ?thesis using assms(1)
    by (simp add: addMessage_def g ld g1 Let_def)
qed

lemma addMessage_stored:
  assumes ttl: "redis m = None \<or> 0 < sessionTTL m"
    and present: "lookup_session m sessionId now \<noteq> None"
  shows "load_messages (addMessage m sessionId message now) sessionId now =
           push_capped (load_messages m sessionId now) message
       \<and> lookup_session (addMessage m sessionId message now) sessionId now \<noteq> None
       \<and> (redis (addMessage m sessionId message now) = None \<longleftrightarrow> redis m = None)
       \<and> sessionTTL (addMessage m sessionId message now) = sessionTTL m"
proof -
  from present obtain sd where sd: "lookup_session m sessionId now = Some sd" by blast
  show ?thesis
  proof (cases "redis m")
    case None
    with sd have "session_of (fallbackStorage m) sessionId = Some sd"
      by (simp add: lookup_session_def)
    from addMessage_fallback [OF None this] None show ?thesis
      by (simp add: load_messages_def lookup_session_def)
  next
    case (Some db)
    with sd have "redis_get (session_keys db) now sessionId = Some sd"
      by (simp add: lookup_session_def)
    from addMessage_redis [OF Some this] ttl Some show ?thesis
      by (simp add: load_messages_def lookup_session_def redis_get_def redis_setex_def)
  qed
qed


lemma addMessage_after_ensure:
  assumes "redis m = None \<or> 0 < sessionTTL m"
  shows "load_messages (addMessage m sessionId message now) sessionId now =
           push_capped (load_messages (snd (getSessionInfo m sessionId now)) sessionId now) message
       \<and> lookup_session (addMessage m sessionId message now) sessionId now \<noteq> None
       \<and> (redis (addMessage m sessionId message now) = None \<longleftrightarrow> redis m = None)
       \<and> sessionTTL (addMessage m sessionId message now) = sessionTTL m"
proof -
  let ?m' = "snd (getSessionInfo m sessionId now)"
  have ttl': "redis ?m' = None \<or> 0 < sessionTTL ?m'"
    using assms by (simp add: getSessionInfo_sessionTTL getSessionInfo_redis)
  from addMessage_stored [OF ttl' getSessionInfo_ensures [OF assms], of message]
  show ?thesis
    by (simp add: addMessage_ensure [OF assms, symmetric] getSessionInfo_sessionTTL
        getSessionInfo_redis)
qed

text \<open>
  Claim C2. After \<open>addMessage\<close>, on either backend (with a positive TTL when Redis
  is in use), for every session and every history, of any length, that the session has
  when the message is appended: the stored list has at most 100 messages, and it is the
  history followed by the new message with just enough of its oldest messages dropped to
  leave 100, so the most recent messages are kept, in order. The history is the stored
  list itself when the session exists, and empty when it does not: \<open>getSessionInfo\<close>
  creates a missing session with an empty list.
\<close>

theorem addMessage_keeps_most_recent_100:
  assumes "redis m = None \<or> 0 < sessionTTL m"
  shows "length (load_messages (addMessage m sessionId message now) sessionId now) \<le> 100
     \<and> load_messages (addMessage m sessionId message now) sessionId now =
         drop (length (load_messages (snd (getSessionInfo m sessionId now)) sessionId now @ [message]) - 100)
           (load_messages (snd (getSessionInfo m sessionId now)) sessionId now @ [message])
     \<and> (lookup_session m sessionId now \<noteq> None \<longrightarrow>
          load_messages (snd (getSessionInfo m sessionId now)) sessionId now =
          load_messages m sessionId now)
     \<and> (lookup_session m sessionId now = None \<longrightarrow>
          load_messages (snd (getSessionInfo m sessionId now)) sessionId now = [])"
proof -
  let ?m' = "snd (getSessionInfo m sessionId now)"
  from addMessage_after_ensure [OF assms]
  have eq: "load_messages (addMessage m sessionId message now) sessionId now =
          push_capped (load_messages ?m' sessionId now) message"
    by (rule conjunct1)
  have 1: "length (load_messages (addMessage m sessionId message now) sessionId now) \<le> 100"
    unfolding eq by (rule length_push_capped)
  have 2: "load_messages (addMessage m sessionId message now) sessionId now =
         drop (length (load_messages ?m' sessionId now @ [message]) - 100)
           (load_messages ?m' sessionId now @ [message])"
    unfolding eq by (rule push_capped_drop)
  have 3: "lookup_session m sessionId now \<noteq> None \<longrightarrow>
          load_messages ?m' sessionId now = load_messages m sessionId now"
    by (auto simp: getSessionInfo_present)
  have 4: "lookup_session m sessionId now = None \<longrightarrow> load_messages ?m' sessionId now = []"
    using assms
    by (auto simp: getSessionInfo_def createSession_def load_messages_def redis_get_def
        redis_setex_def Let_def split: option.splits)
  from 1 2 3 4 show ?thesis by blast
qed

theorem addMessage_keeps_most_recent_100_witness:
  "load_messages (addMessage
      ((new_SessionManager None :: nat session_manager)\<lparr>fallbackStorage :=
          \<lparr>session_of = [''s'' \<mapsto> \<lparr>session_id = ''s'', created = 0, lastActivity = 5, messageCount = 100\<rparr>],
           messages_of = [''s'' \<mapsto> [0..<100]]\<rparr>\<rparr>) ''s'' 100 7) ''s'' 7 = [1..<100] @ [100]"
proof -
  let ?m = "(new_SessionManager None :: nat session_manager)\<lparr>fallbackStorage :=
          \<lparr>session_of = [''s'' \<mapsto> \<lparr>session_id = ''s'', created = 0, lastActivity = 5, messageCount = 100\<rparr>],
           messages_of = [''s'' \<mapsto> [0..<100]]\<rparr>\<rparr>"
  have ttl: "redis ?m = None \<or> 0 < sessionTTL ?m" by (simp add: new_SessionManager_def)
  have p: "lookup_session ?m ''s'' 7 \<noteq> None"
    by (simp add: lookup_session_def new_SessionManager_def)
  have l: "load_messages ?m ''s'' 7 = [0..<100]"
    by (simp add: load_messages_def new_SessionManager_def)
  from addMessage_keeps_most_recent_100 [OF ttl, of "''s''" 100 7] p l
  have "load_messages (addMessage ?m ''s'' 100 7) ''s'' 7 =
          drop (length ([0..<100] @ [100::nat]) - 100) ([0..<100] @ [100])"
    by simp
  then show ?thesis by simp
qed

text \<open>
  A run of appends to one session: the stored list is the history followed by all the new
  messages, cut to its last 100. After 105 appends to a new session the first five
  messages are gone, and \<open>getMessages\<close> with a limit of 100 returns the other 100.
\<close>

lemma drop_cap_append:
  "drop (length (drop (length zs - n) zs @ ys) - n) (drop (length zs - n) zs @ ys) =
     drop (length (zs @ ys) - n) (zs @ ys)"
proof (cases "length zs \<le> n")
  case True
  then show ?thesis by simp
next
  case False
  then have "length ys + length zs - n = length zs + length ys - n" by simp
  with False show ?thesis by (simp add: drop_append)
qed

lemma addMessage_sequence:
  assumes "redis m = None \<or> 0 < sessionTTL m"
    and "lookup_session m sessionId now \<noteq> None"
    and "length (load_messages m sessionId now) \<le> 100"
  shows "load_messages (foldl (\<lambda>m message. addMessage m sessionId message now) m new)
           sessionId now =
         drop (length (load_messages m sessionId now @ new) - 100)
           (load_messages m sessionId now @ new)"
  using assms
proof (induction new arbitrary: m)
  case Nil
  then show ?case by simp
next
  case (Cons message new)
  let ?old = "load_messages m sessionId now"
  let ?m1 = "addMessage m sessionId message now"
  from addMessage_stored [OF Cons.prems(1,2), of message]
  have s: "load_messages ?m1 sessionId now = push_capped ?old message"
    "lookup_session ?m1 sessionId now \<noteq> None"
    "redis ?m1 = None \<or> 0 < sessionTTL ?m1"
    using Cons.prems(1) by auto
  have le: "length (load_messages ?m1 sessionId now) \<le> 100"
    unfolding s(1) by (rule length_push_capped)
  from Cons.IH [OF s(3) s(2) le]
  have "load_messages (foldl (\<lambda>m message. addMessage m sessionId message now) ?m1 new)
           sessionId now =
         drop (length (push_capped ?old message @ new) - 100) (push_capped ?old message @ new)"
    by (simp only: s(1))
  also have "\<dots> = drop (length ((?old @ [message]) @ new) - 100) ((?old @ [message]) @ new)"
    unfolding push_capped_drop by (rule drop_cap_append)
  finally show ?case by simp
qed

lemma history_after_105_appends:
  "load_messages
     (foldl (\<lambda>m message. addMessage m ''s'' message 1)
        (snd (createSession (new_SessionManager None :: nat session_manager) ''s'' 0)) [0..<105])
     ''s'' 1 = [5..<105]"
proof -
  let ?m = "snd (createSession (new_SessionManager None :: nat session_manager) ''s'' 0)"
  have f: "lookup_session ?m ''s'' 1 \<noteq> None" "load_messages ?m ''s'' 1 = []"
    "redis ?m = None \<or> 0 < sessionTTL ?m"
    by (simp_all add: createSession_def new_SessionManager_def lookup_session_def
        load_messages_def Let_def)
  from addMessage_sequence [OF f(3) f(1), of "[0..<105]"] f(2)
  show ?thesis by (simp add: drop_upt)
qed


lemma slice_nonneg:
  "0 \<le> start \<Longrightarrow> 0 \<le> fin \<Longrightarrow>
     slice xs start fin = drop (nat start) (take (nat fin) xs)"
  by (auto simp: slice_def Let_def drop_take min_def nat_diff_distrib')

lemma newest_first_window:
  "rev (take l (drop k (rev xs))) = drop (length xs - k - l) (take (length xs - k) xs)"
  by (simp add: rev_take rev_drop)

text \<open>
  Claim C7. For a limit \<open>l \<ge> 0\<close> and an offset \<open>k \<ge> 0\<close>, \<open>getMessages\<close> returns
  the stored messages read from the newest backwards, with the first \<open>k\<close> skipped and
  the next \<open>l\<close> taken, put back in chronological order; there are \<open>l\<close> of them,
  or as many as are left after the skipped ones.
\<close>

theorem getMessages_most_recent_window:
  assumes "0 \<le> l" and "0 \<le> k"
  shows "getMessages m sessionId \<lparr>limit = Some l, offset = Some k\<rparr> now =
           rev (take (nat l) (drop (nat k) (rev (load_messages m sessionId now))))
     \<and> length (getMessages m sessionId \<lparr>limit = Some l, offset = Some k\<rparr> now) =
           min (nat l) (length (load_messages m sessionId now) - nat k)"
proof -
  let ?xs = "load_messages m sessionId now"
  have s: "nat (max 0 (int (length ?xs) - l - k)) = length ?xs - nat k - nat l"
    using assms by auto
  have e: "nat (max 0 (int (length ?xs) - k)) = length ?xs - nat k"
    using assms by auto
  have "getMessages m sessionId \<lparr>limit = Some l, offset = Some k\<rparr> now =
          drop (length ?xs - nat k - nat l) (take (length ?xs - nat k) ?xs)"
    by (simp add: getMessages_def Let_def slice_nonneg s e)
  then have 1: "getMessages m sessionId \<lparr>limit = Some l, offset = Some k\<rparr> now =
           rev (take (nat l) (drop (nat k) (rev ?xs)))"
    by (simp only: newest_first_window)
  show ?thesis unfolding 1 by simp
qed

theorem getMessages_most_recent_window_witness:
  "getMessages ((new_SessionManager None :: nat session_manager)\<lparr>fallbackStorage :=
          \<lparr>session_of = Map.empty, messages_of = [''s'' \<mapsto> [10, 11, 12, 13, 14, 15]]\<rparr>\<rparr>)
      ''s'' \<lparr>limit = Some 3, offset = Some 2\<rparr> 0 = [11, 12, 13]"
proof -
  let ?m = "(new_SessionManager None :: nat session_manager)\<lparr>fallbackStorage :=
          \<lparr>session_of = Map.empty, messages_of = [''s'' \<mapsto> [10, 11, 12, 13, 14, 15]]\<rparr>\<rparr>"
  have l: "load_messages ?m ''s'' 0 = [10, 11, 12, 13, 14, 15]"
    by (simp add: load_messages_def new_SessionManager_def)
  have "(0::int) \<le> 3" "(0::int) \<le> 2" by simp_all
  from getMessages_most_recent_window [OF this, of ?m "''s''" 0]
  show ?thesis unfolding l by (simp add: numeral_eq_Suc)
qed

text \<open>Without options the most recent 50 messages are returned.\<close>

lemma getMessages_defaults:
  "getMessages m sessionId \<lparr>limit = None, offset = None\<rparr> now =
     drop (length (load_messages m sessionId now) - 50) (load_messages m sessionId now)"
proof -
  have "nat (max 0 (int (length (load_messages m sessionId now)) - 50)) =
          length (load_messages m sessionId now) - 50"
    by auto
  then show ?thesis by (simp add: getMessages_def Let_def slice_nonneg)
qed


section \<open>Session expiry\<close>

lemma sweep_session:
  "session_of (fallbackStorage (sweep m now)) sessionId =
     (case session_of (fallbackStorage m) sessionId of
        None \<Rightarrow> None
      | Some sd \<Rightarrow> if now - created sd > int (sessionTTL m) * 1000 then None else Some sd)"
  by (simp add: sweep_def expired_def split: option.splits)

lemma addMessage_fallback_keeps_created:
  assumes "redis m = None" and "session_of (fallbackStorage m) sessionId = Some sd"
  shows "\<exists>sd'. session_of (fallbackStorage (addMessage m sessionId message now)) sessionId = Some sd'
           \<and> created sd' = created sd \<and> lastActivity sd' = now"
  by (simp add: addMessage_fallback [OF assms])

lemma addMessage_redis_refreshes_ttl:
  assumes "redis m = Some db" and "now \<le> t" and "t < now + int (sessionTTL m) * 1000"
  shows "lookup_session (addMessage m sessionId message now) sessionId t \<noteq> None"
proof -
  have ttl: "redis m = None \<or> 0 < sessionTTL m" using assms(2,3) by auto
  let ?m' = "snd (getSessionInfo m sessionId now)"
  from assms(1) obtain db' where db': "redis ?m' = Some db'"
    using getSessionInfo_redis [of m sessionId now] by auto
  from getSessionInfo_ensures [OF ttl, of sessionId now] db' obtain sd where
    sd: "redis_get (session_keys db') now sessionId = Some sd"
    by (auto simp: lookup_session_def)
  from addMessage_redis [OF db' sd, of message] assms(3)
  have "lookup_session (addMessage ?m' sessionId message now) sessionId t \<noteq> None"
    by (simp add: lookup_session_def redis_get_def redis_setex_def getSessionInfo_sessionTTL)
  with addMessage_ensure [OF ttl, of sessionId message now] show ?thesis by simp
qed

text \<open>
  Claim C6 says that in the fallback backend a session is never swept before its TTL has
  passed since the last append. The sweep measures the age from \<open>created\<close>, which
  \<open>addMessage\<close> never changes (\<open>addMessage_fallback_keeps_created\<close>), while on
  the Redis backend every append stores the session for a new TTL
  (\<open>addMessage_redis_refreshes_ttl\<close>). With the default TTL of 86400 seconds, a session
  created at instant 0 that receives a message at 86400000 ms is present then, and the
  sweep at 86400001 ms, one millisecond after the append, deletes it and its messages.
\<close>

theorem sweep_evicts_session_after_recent_append:
  "lookup_session
     (addMessage (snd (createSession (new_SessionManager None :: nat session_manager) ''s'' 0))
        ''s'' 1 86400000) ''s'' 86400000
     = Some \<lparr>session_id = ''s'', created = 0, lastActivity = 86400000, messageCount = 1\<rparr>
   \<and> lookup_session
     (sweep (addMessage (snd (createSession (new_SessionManager None :: nat session_manager) ''s'' 0))
        ''s'' 1 86400000) 86400001) ''s'' 86400001 = None
   \<and> load_messages
     (sweep (addMessage (snd (createSession (new_SessionManager None :: nat session_manager) ''s'' 0))
        ''s'' 1 86400000) 86400001) ''s'' 86400001 = []"
  by (simp add: new_SessionManager_def createSession_def addMessage_def getSessionInfo_def
      lookup_session_def load_messages_def sweep_def expired_def push_capped_def Let_def)

end
